theory Spec2Isabelle
  imports Complex_Main "HOL-Library.Log_Nat"
begin

section \<open>Data model\<close>

text \<open>
  The repository is a pair of Python 2 scripts on top of NumPy: \<^verbatim>\<open>make_Cmatrix.py\<close> builds,
  stores, corrects, cuts and inverts covariance matrices, \<^verbatim>\<open>chisquare_test.py\<close> drives it.
  A two-dimensional NumPy array is a list of rows; a one-dimensional one is a list.  An
  exception raised by a NumPy call is a value of \<open>error\<close>, and a function that can raise
  returns \<open>error + 'a\<close>.  \<^verbatim>\<open>subMatrix2\<close> returns either the integer \<^verbatim>\<open>0\<close> or an array,
  so its results are values of \<open>pyval\<close>.  What the functions print is not part of the
  model.
\<close>

datatype error = IndexError | ValueError | IOError

datatype 'a pyval = PyInt int | NdArray "'a list list"

text \<open>
  Number of columns of an array given as a list of rows (\<^verbatim>\<open>shape[1]\<close>).
\<close>

definition ncols :: "'a list list \<Rightarrow> nat" where
  "ncols M = (case M of [] \<Rightarrow> 0 | r # _ \<Rightarrow> length r)"

text \<open>
  \<^verbatim>\<open>np.transpose\<close> of a two-dimensional array.
\<close>

definition transposeM :: "'a list list \<Rightarrow> 'a list list" where
  "transposeM M = map (\<lambda>j. map (\<lambda>i. M ! i ! j) [0..<length M]) [0..<ncols M]"

definition symmetric :: "'a list list \<Rightarrow> bool" where
  "symmetric M \<longleftrightarrow> transposeM M = M"

definition is_square :: "nat \<Rightarrow> 'a list list \<Rightarrow> bool" where
  "is_square n M \<longleftrightarrow> length M = n \<and> list_all (\<lambda>r. length r = n) M"

section \<open>Floating-point numbers\<close>

text \<open>
  The entries of the arrays are IEEE 754 binary64 numbers (NumPy \<^verbatim>\<open>float64\<close>, Python
  \<^verbatim>\<open>float\<close>).  \<open>Finite m e\<close> is the non-zero number \<open>m \<sqdot> 2\<^sup>e\<close> in the format's own form
  (\<open>wf64\<close> below): \<open>2\<^sup>5\<^sup>2 \<le> \<bar>m\<bar> < 2\<^sup>5\<^sup>3\<close> and \<open>-1074 \<le> e \<le> 971\<close>, or \<open>\<bar>m\<bar> < 2\<^sup>5\<^sup>2\<close> and
  \<open>e = -1074\<close> for a subnormal.  The two zeros and the two infinities are values of their
  own, and all NaNs are one value, so equality of two values of the type is equality of
  the bits of two numbers, up to the payload of a NaN.
\<close>

datatype float64 = Finite int int | PosZero | NegZero | PInf | NInf | NaN

text \<open>
  \<open>m / 2\<^sup>s\<close> rounded to the nearest integer, a tie to the even one (\<open>0 < s\<close>).
\<close>

definition rne :: "int \<Rightarrow> nat \<Rightarrow> int" where
  "rne m s = (let q = m div 2 ^ s; r = m mod 2 ^ s; half = 2 ^ (s - 1) in
              if r < half then q else if half < r then q + 1
              else if even q then q else q + 1)"

text \<open>
  The binary64 number nearest to the exact value \<open>m \<sqdot> 2\<^sup>e\<close>: 53 significant bits, no bit
  below \<open>2\<^sup>-\<^sup>1\<^sup>0\<^sup>7\<^sup>4\<close>, an infinity from \<open>2\<^sup>1\<^sup>0\<^sup>2\<^sup>4\<close> on, a signed zero when the value rounds to
  nothing.
\<close>

definition round64 :: "int \<Rightarrow> int \<Rightarrow> float64" where
  "round64 m e =
     (if m = 0 then PosZero else
      let te = max (e + bitlen \<bar>m\<bar> - 53) (- 1074);
          q = (if te \<le> e then m * 2 ^ nat (e - te) else rne m (nat (te - e)));
          carry = (\<bar>q\<bar> = 2 ^ 53);
          q' = (if carry then q div 2 else q);
          te' = (if carry then te + 1 else te)
      in if q' = 0 then (if 0 < m then PosZero else NegZero)
         else if 971 < te' then (if 0 < m then PInf else NInf)
         else Finite q' te')"

fun is_neg :: "float64 \<Rightarrow> bool" where
  "is_neg (Finite m e) = (m < 0)"
| "is_neg NegZero = True"
| "is_neg NInf = True"
| "is_neg _ = False"

fun is_zero :: "float64 \<Rightarrow> bool" where
  "is_zero PosZero = True"
| "is_zero NegZero = True"
| "is_zero _ = False"

fun is_inf :: "float64 \<Rightarrow> bool" where
  "is_inf PInf = True"
| "is_inf NInf = True"
| "is_inf _ = False"

definition signed_zero :: "bool \<Rightarrow> float64" where
  "signed_zero s = (if s then NegZero else PosZero)"

definition signed_inf :: "bool \<Rightarrow> float64" where
  "signed_inf s = (if s then NInf else PInf)"

text \<open>
  The arithmetic of the format, each result the exact one rounded by \<open>round64\<close>.  NumPy
  signals division by zero and overflow with a warning, not an exception, and returns the
  infinity or NaN.  The quotient is rounded from \<open>2 q + sticky\<close>, where \<open>q\<close> is an integer
  quotient with more than 60 bits.
\<close>

instantiation float64 :: "{zero, one, plus, uminus, minus, times, inverse}"
begin

definition zero_float64 :: float64 where
  "zero_float64 = PosZero"

definition one_float64 :: float64 where
  "one_float64 = round64 1 0"

fun uminus_float64 :: "float64 \<Rightarrow> float64" where
  "uminus_float64 (Finite m e) = Finite (- m) e"
| "uminus_float64 PosZero = NegZero"
| "uminus_float64 NegZero = PosZero"
| "uminus_float64 PInf = NInf"
| "uminus_float64 NInf = PInf"
| "uminus_float64 NaN = NaN"

fun plus_float64 :: "float64 \<Rightarrow> float64 \<Rightarrow> float64" where
  "plus_float64 NaN y = NaN"
| "plus_float64 x NaN = NaN"
| "plus_float64 PInf y = (if y = NInf then NaN else PInf)"
| "plus_float64 NInf y = (if y = PInf then NaN else NInf)"
| "plus_float64 x PInf = PInf"
| "plus_float64 x NInf = NInf"
| "plus_float64 NegZero y = y"
| "plus_float64 x NegZero = x"
| "plus_float64 PosZero y = y"
| "plus_float64 x PosZero = x"
| "plus_float64 (Finite m1 e1) (Finite m2 e2) =
     (let e = min e1 e2; m = m1 * 2 ^ nat (e1 - e) + m2 * 2 ^ nat (e2 - e)
      in if m = 0 then PosZero else round64 m e)"

definition minus_float64 :: "float64 \<Rightarrow> float64 \<Rightarrow> float64" where
  "minus_float64 x y = x + (- y)"

definition times_float64 :: "float64 \<Rightarrow> float64 \<Rightarrow> float64" where
  "times_float64 x y =
     (if x = NaN \<or> y = NaN then NaN
      else let s = (is_neg x \<noteq> is_neg y) in
        if (is_inf x \<and> is_zero y) \<or> (is_zero x \<and> is_inf y) then NaN
        else if is_inf x \<or> is_inf y then signed_inf s
        else if is_zero x \<or> is_zero y then signed_zero s
        else (case (x, y) of (Finite m1 e1, Finite m2 e2) \<Rightarrow> round64 (m1 * m2) (e1 + e2) | _ \<Rightarrow> NaN))"

definition divide_float64 :: "float64 \<Rightarrow> float64 \<Rightarrow> float64" where
  "divide_float64 x y =
     (if x = NaN \<or> y = NaN then NaN
      else let s = (is_neg x \<noteq> is_neg y) in
        if (is_inf x \<and> is_inf y) \<or> (is_zero x \<and> is_zero y) then NaN
        else if is_inf x \<or> is_zero y then signed_inf s
        else if is_zero x \<or> is_inf y then signed_zero s
        else (case (x, y) of
                (Finite m1 e1, Finite m2 e2) \<Rightarrow>
                  (let k = 60 + nat (bitlen \<bar>m2\<bar>);
                       q = (\<bar>m1\<bar> * 2 ^ k) div \<bar>m2\<bar>;
                       r = (\<bar>m1\<bar> * 2 ^ k) mod \<bar>m2\<bar>;
                       m = 2 * q + (if r = 0 then 0 else 1)
                   in round64 (if s then - m else m) (e1 - e2 - int k - 1))
              | _ \<Rightarrow> NaN))"

definition inverse_float64 :: "float64 \<Rightarrow> float64" where
  "inverse_float64 x = divide (1::float64) x"

instance ..

end

text \<open>
  The binary64 number written \<open>m \<sqdot> 2\<^sup>e\<close>, for the literals of the examples.
\<close>

definition fl :: "int \<Rightarrow> int \<Rightarrow> float64" where
  "fl m e = round64 m e"

text \<open>
  The values in the format's own form, and among them the finite values other than
  \<open>-0.0\<close> of magnitude below \<open>2\<^sup>1\<^sup>0\<^sup>2\<^sup>3\<close>, half the range: \<open>\<bar>m\<bar> < 2\<^sup>5\<^sup>3\<close> and \<open>e \<le> 970\<close>.  These are
  the numbers \<open>a\<close> whose double \<open>a + a\<close> is again a finite number.
\<close>

fun wf64 :: "float64 \<Rightarrow> bool" where
  "wf64 (Finite m e) \<longleftrightarrow>
     (2 ^ 52 \<le> \<bar>m\<bar> \<and> \<bar>m\<bar> < 2 ^ 53 \<and> - 1074 \<le> e \<and> e \<le> 971) \<or> (m \<noteq> 0 \<and> \<bar>m\<bar> < 2 ^ 52 \<and> e = - 1074)"
| "wf64 _ \<longleftrightarrow> True"

fun below_half_max :: "float64 \<Rightarrow> bool" where
  "below_half_max (Finite m e) \<longleftrightarrow> wf64 (Finite m e) \<and> e \<le> 970"
| "below_half_max PosZero \<longleftrightarrow> True"
| "below_half_max _ \<longleftrightarrow> False"

section \<open>Sub-matrix extraction: \<^verbatim>\<open>subMatrix2\<close>\<close>

text \<open>
  A mask is given by the truth value of each of its entries, which is all that
  \<^verbatim>\<open>np.where(mask)[0]\<close> reads: the indices of the true entries, ascending.
\<close>

definition np_where :: "bool list \<Rightarrow> nat list" where
  "np_where mask' = [i \<leftarrow> [0..<length mask']. mask' ! i]"

text \<open>
  The loop \<^verbatim>\<open>for pixel in maskVec: if pixel not in bigMaskVec: ... return 0\<close>:
  true when the early return is taken.
\<close>

fun pixel_outside :: "nat list \<Rightarrow> nat list \<Rightarrow> bool" where
  "pixel_outside [] bigMaskVec = False"
| "pixel_outside (pixel # rest) bigMaskVec =
     (if pixel \<notin> set bigMaskVec then True else pixel_outside rest bigMaskVec)"

text \<open>
  \<^verbatim>\<open>subVec = [bigI for bigI in range(bigMaskVec.size) for subI in range(maskVec.size)
             if maskVec[subI] == bigMaskVec[bigI]]\<close>
\<close>

definition subVec_of :: "nat list \<Rightarrow> nat list \<Rightarrow> nat list" where
  "subVec_of maskVec bigMaskVec =
     [bigI. bigI \<leftarrow> [0..<length bigMaskVec], subI \<leftarrow> [0..<length maskVec],
            maskVec ! subI = bigMaskVec ! bigI]"

text \<open>
  \<^verbatim>\<open>cMatrix[np.meshgrid(subVec,subVec)]\<close>.  \<^verbatim>\<open>np.meshgrid(v, v)\<close> returns the pair of
  grids \<open>X\<close>, \<open>Y\<close> with \<open>X[a][b] = v[b]\<close> and \<open>Y[a][b] = v[a]\<close>; the NumPy of the
  script (Python 2) reads a list of index arrays as one index per axis, so entry
  \<open>(a, b)\<close> of the result is \<open>cMatrix[X[a][b], Y[a][b]] = cMatrix[v[b], v[a]]\<close>.
  \<^verbatim>\<open>subVec\<close> is a Python list: when it is empty the grids are arrays of floats, which
  NumPy refuses as indices with \<^verbatim>\<open>IndexError\<close>.  An index beyond either axis raises
  \<^verbatim>\<open>IndexError\<close> too.
\<close>

definition meshgrid_index :: "'a list list \<Rightarrow> nat list \<Rightarrow> error + 'a list list" where
  "meshgrid_index cMatrix subVec =
     (if subVec = [] then Inl IndexError
      else if \<exists>s \<in> set subVec. length cMatrix \<le> s \<or> ncols cMatrix \<le> s then Inl IndexError
      else Inr (map (\<lambda>ya. map (\<lambda>xb. cMatrix ! xb ! ya) subVec) subVec))"

definition subMatrix2 :: "bool list \<Rightarrow> bool list \<Rightarrow> 'a list list \<Rightarrow> error + 'a pyval" where
  "subMatrix2 mask' bigMask cMatrix =
     (let maskVec = np_where mask'; bigMaskVec = np_where bigMask in
      if pixel_outside maskVec bigMaskVec then Inr (PyInt 0)
      else case meshgrid_index cMatrix (subVec_of maskVec bigMaskVec) of
             Inl e \<Rightarrow> Inl e
           | Inr subCmat \<Rightarrow> Inr (NdArray subCmat))"

text \<open>
  The arrays as Python holds them: objects in a store, named by a reference.  Indexing
  with arrays of indices makes a new object, and \<^verbatim>\<open>subMatrix2\<close> has no assignment to
  \<^verbatim>\<open>cMatrix\<close> or to an entry of it, so the call reads the object \<open>c\<close> and adds the
  result to the store.
\<close>

record 'a store =
  objs :: "nat \<Rightarrow> 'a list list"
  next_id :: nat

datatype ret = RetInt int | RetRef nat

definition subMatrix2_store ::
  "bool list \<Rightarrow> bool list \<Rightarrow> nat \<Rightarrow> 'a store \<Rightarrow> 'a store \<times> (error + ret)" where
  "subMatrix2_store mask' bigMask c s =
     (case subMatrix2 mask' bigMask (objs s c) of
        Inl e \<Rightarrow> (s, Inl e)
      | Inr (PyInt k) \<Rightarrow> (s, Inr (RetInt k))
      | Inr (NdArray subCmat) \<Rightarrow>
          (s\<lparr>objs := (objs s)(next_id s := subCmat), next_id := Suc (next_id s)\<rparr>,
           Inr (RetRef (next_id s))))"

subsection \<open>Vocabulary of the claims about extraction\<close>

text \<open>
  Every active pixel of the subset mask is an active pixel of the superset mask.
\<close>

definition valid_pair :: "bool list \<Rightarrow> bool list \<Rightarrow> bool" where
  "valid_pair m big \<longleftrightarrow> list_all (\<lambda>i. m ! i \<longrightarrow> i < length big \<and> big ! i) [0..<length m]"

text \<open>
  The place of pixel \<open>p\<close> in the ordering of the active pixels \<open>big\<close>.
\<close>

definition position_in :: "nat list \<Rightarrow> nat \<Rightarrow> nat" where
  "position_in big p = length (takeWhile (\<lambda>x. x \<noteq> p) big)"

text \<open>
  The superset positions \<open>idx\<^sub>0, \<dots>, idx\<^sub>k\<^sub>-\<^sub>1\<close> of the subset's pixels, in subset order.
\<close>

definition superset_positions :: "bool list \<Rightarrow> bool list \<Rightarrow> nat list" where
  "superset_positions m big = map (position_in (np_where big)) (np_where m)"

text \<open>
  The intended selection: rows \<open>idx\<close> and columns \<open>idx\<close> of \<open>M\<close>.
\<close>

definition select_block :: "'a list list \<Rightarrow> nat list \<Rightarrow> 'a list list" where
  "select_block M idx = map (\<lambda>a. map (\<lambda>b. M ! a ! b) idx) idx"

section \<open>Compact storage of a symmetric matrix: \<^verbatim>\<open>symSave\<close>, \<^verbatim>\<open>symLoad\<close>\<close>

text \<open>
  The files that \<^verbatim>\<open>np.save\<close> writes and \<^verbatim>\<open>np.load\<close> reads: a file name holds a
  one-dimensional array, or nothing.  \<^verbatim>\<open>np.save\<close> appends \<^verbatim>\<open>.npy\<close> to a name that does
  not end with it; \<^verbatim>\<open>np.load\<close> opens the name it is given.
\<close>

type_synonym 'a files = "string \<Rightarrow> 'a list option"

definition endswith :: "string \<Rightarrow> string \<Rightarrow> bool" where
  "endswith s t \<longleftrightarrow> length t \<le> length s \<and> drop (length s - length t) s = t"

definition npy_name :: "string \<Rightarrow> string" where
  "npy_name file = (if endswith file ''.npy'' then file else file @ ''.npy'')"

text \<open>
  \<^verbatim>\<open>np.triu_indices\<close>: the places on and above the diagonal of an \<open>n \<times> m\<close> array, row by
  row.  \<^verbatim>\<open>saveMe[indices]\<close> reads the entries at these places, in this order.
\<close>

definition triu_indices :: "nat \<Rightarrow> nat \<Rightarrow> (nat \<times> nat) list" where
  "triu_indices n m = [(i, j). i \<leftarrow> [0..<n], j \<leftarrow> [i..<m]]"

definition take_indices :: "'a list list \<Rightarrow> (nat \<times> nat) list \<Rightarrow> 'a list" where
  "take_indices A indices = map (\<lambda>(i, j). A ! i ! j) indices"

text \<open>
  \<^verbatim>\<open>indices = np.triu_indices_from(saveMe); np.save(saveFile,saveMe[indices])\<close>
\<close>

definition symSave :: "'a list list \<Rightarrow> string \<Rightarrow> 'a files \<Rightarrow> 'a files" where
  "symSave saveMe saveFile fs =
     (let indices = triu_indices (length saveMe) (ncols saveMe)
      in fs(npy_name saveFile \<mapsto> take_indices saveMe indices))"

text \<open>
  \<^verbatim>\<open>n = -1/2.+np.sqrt(1/4.+2*loaded.size)\<close> is a float, and \<^verbatim>\<open>symLoad\<close> passes it on as
  it is.  The NumPy the script was written for (Python 2, 2015) takes a float for a
  dimension: \<^verbatim>\<open>np.zeros([n,n])\<close> truncates it, and \<^verbatim>\<open>np.triu_indices(n)\<close> counts with
  \<^verbatim>\<open>arange(n)\<close>, which has \<open>\<lceil>n\<rceil>\<close> elements.  With the square root taken exactly, the two
  numbers are \<open>n_floor\<close> and \<open>n_ceil\<close> of the size (lemmas \<open>n_floor_formula\<close> and
  \<open>n_ceil_formula\<close> below); \<open>tri k\<close> is the size of the compact form of a \<open>k \<times> k\<close> matrix.
\<close>

definition tri :: "nat \<Rightarrow> nat" where
  "tri k = k * (k + 1) div 2"

definition n_floor :: "nat \<Rightarrow> nat" where
  "n_floor size' = length [k \<leftarrow> [1..<Suc size']. tri k \<le> size']"

definition n_ceil :: "nat \<Rightarrow> nat" where
  "n_ceil size' = length [k \<leftarrow> [0..<size']. tri k < size']"

definition np_zeros :: "nat \<Rightarrow> nat \<Rightarrow> 'a::zero list list" where
  "np_zeros r c = replicate r (replicate c 0)"

text \<open>
  \<^verbatim>\<open>array[indices]=loaded\<close>: the values are written to the places one by one.  NumPy
  raises \<^verbatim>\<open>ValueError\<close> when the number of values is neither the number of places nor one
  (a single value is written to every place), and \<^verbatim>\<open>IndexError\<close> for a place outside
  the array.
\<close>

fun set_item :: "'a list list \<Rightarrow> (nat \<times> nat) \<times> 'a \<Rightarrow> 'a list list" where
  "set_item A ((i, j), v) = A[i := (A ! i)[j := v]]"

definition assign_indices ::
  "'a list list \<Rightarrow> (nat \<times> nat) list \<Rightarrow> 'a list \<Rightarrow> error + 'a list list" where
  "assign_indices array indices vals =
     (if length vals \<noteq> length indices \<and> length vals \<noteq> 1 then Inl ValueError
      else if \<exists>(i, j) \<in> set indices. length array \<le> i \<or> ncols array \<le> j then Inl IndexError
      else Inr (foldl set_item array
                  (zip indices (if length vals = length indices then vals
                                else replicate (length indices) (hd vals)))))"

text \<open>
  \<^verbatim>\<open>np.diag\<close> of a two-dimensional array is its diagonal; of a one-dimensional array, the
  square array with it on the diagonal and zeros elsewhere.
\<close>

definition np_diag_of :: "'a list list \<Rightarrow> 'a list" where
  "np_diag_of A = map (\<lambda>i. A ! i ! i) [0..<min (length A) (ncols A)]"

definition np_diag :: "'a::zero list \<Rightarrow> 'a list list" where
  "np_diag v = map (\<lambda>i. map (\<lambda>j. if i = j then v ! i else 0) [0..<length v]) [0..<length v]"

text \<open>
  \<^verbatim>\<open>array+np.transpose(array)-np.diag(np.diag(array))\<close> for a square array, entry by
  entry: the sum first, then the difference.  \<^verbatim>\<open>makeCmatrix\<close> ends with the same
  expression.
\<close>

definition symmetrise :: "'a::{zero,plus,minus} list list \<Rightarrow> 'a list list" where
  "symmetrise array =
     (let t = transposeM array; d = np_diag (np_diag_of array)
      in map (\<lambda>i. map (\<lambda>j. (array ! i ! j + t ! i ! j) - d ! i ! j) [0..<ncols array])
             [0..<length array])"

definition symLoad :: "string \<Rightarrow> 'a::{zero,plus,minus} files \<Rightarrow> error + 'a list list" where
  "symLoad loadFile fs =
     (case fs loadFile of
        None \<Rightarrow> Inl IOError
      | Some loaded \<Rightarrow>
          (let size' = length loaded;
               array = np_zeros (n_floor size') (n_floor size');
               indices = triu_indices (n_ceil size') (n_ceil size')
           in case assign_indices array indices loaded of
                Inl e \<Rightarrow> Inl e
              | Inr array' \<Rightarrow> Inr (symmetrise array')))"

section \<open>Mean correction: \<^verbatim>\<open>cMatCorrect\<close>\<close>

text \<open>
  The Python integer \<^verbatim>\<open>size\<close> as an entry of an array (exact up to \<open>2\<^sup>5\<^sup>3\<close> in
  binary64).
\<close>

fun of_size :: "nat \<Rightarrow> 'a::{zero,one,plus}" where
  "of_size 0 = 0"
| "of_size (Suc n) = of_size n + 1"

text \<open>
  \<^verbatim>\<open>np.sum\<close> of a one-dimensional array, the entries added from left to right.  NumPy
  from 1.9 on groups the additions of a long array in another way; in exact arithmetic
  the sum is the same, and the binary64 examples below have rows of two entries.
  \<^verbatim>\<open>axis=0\<close> adds down each column, \<^verbatim>\<open>axis=1\<close> along each row.
\<close>

fun np_sum :: "'a::{zero,plus} list \<Rightarrow> 'a" where
  "np_sum [] = 0"
| "np_sum (x # xs) = foldl (+) x xs"

definition np_sum_axis0 :: "'a::{zero,plus} list list \<Rightarrow> 'a list" where
  "np_sum_axis0 A = map (\<lambda>j. np_sum (map (\<lambda>row. row ! j) A)) [0..<ncols A]"

definition np_sum_axis1 :: "'a::{zero,plus} list list \<Rightarrow> 'a list" where
  "np_sum_axis1 A = map np_sum A"

text \<open>
  An operand of length one stands for every index (NumPy broadcasting).
\<close>

definition bc :: "'a list \<Rightarrow> nat \<Rightarrow> 'a" where
  "bc v k = (if length v = 1 then v ! 0 else v ! k)"

text \<open>
  \<^verbatim>\<open>c2mat = np.reshape(np.repeat(c2,size),(size,size))\<close> has \<open>c2[i]\<close> all along row \<open>i\<close>;
  \<^verbatim>\<open>cMatrix - c1/size - c2mat/size + c3/size**2\<close> is evaluated from left to right.  The
  source says the array is square; for another shape NumPy raises \<^verbatim>\<open>ValueError\<close>
  unless one of the two dimensions is one.
\<close>

definition cMatCorrect :: "'a::{zero,one,plus,minus,inverse} list list \<Rightarrow> error + 'a list list" where
  "cMatCorrect cMatrix =
     (let size' = length cMatrix;
          cols = ncols cMatrix;
          c1 = np_sum_axis0 cMatrix;
          c2 = np_sum_axis1 cMatrix;
          c3 = np_sum (concat cMatrix);
          c2mat = map (\<lambda>i. replicate size' (c2 ! i)) [0..<size']
      in if cols \<noteq> size' \<and> cols \<noteq> 1 \<and> size' \<noteq> 1 then Inl ValueError
         else Inr (map (\<lambda>i. map (\<lambda>j. ((bc (cMatrix ! i) j - bc c1 j / of_size size')
                                         - bc (c2mat ! i) j / of_size size')
                                        + c3 / of_size (size' ^ 2))
                                [0..<(if size' = 1 then cols else size')])
                       [0..<size']))"

section \<open>Inversion from the eigen-decomposition: \<^verbatim>\<open>RDInvert\<close>\<close>

text \<open>
  \<^verbatim>\<open>np.dot\<close> of two two-dimensional arrays, each entry the sum of the products in the
  order of the index; \<^verbatim>\<open>ValueError\<close> when the shapes do not fit.
\<close>

definition np_dot :: "'a::{zero,plus,times} list list \<Rightarrow> 'a list list \<Rightarrow> error + 'a list list" where
  "np_dot A B =
     (if ncols A \<noteq> length B then Inl ValueError
      else Inr (map (\<lambda>i. map (\<lambda>j. np_sum (map (\<lambda>k. A ! i ! k * B ! k ! j) [0..<length B]))
                             [0..<ncols B])
                     [0..<length A]))"

text \<open>
  \<^verbatim>\<open>eigVals**-1\<close> is the reciprocal of each eigenvalue.  The function has no test of
  the eigenvalues.
\<close>

definition RDInvert :: "'a::{zero,plus,times,inverse} list \<Rightarrow> 'a list list \<Rightarrow> error + 'a list list" where
  "RDInvert eigVals eigVecs =
     (let diagInv = np_diag (map inverse eigVals);
          eigVecsTranspose = transposeM eigVecs
      in case np_dot eigVecs diagInv of
           Inl e \<Rightarrow> Inl e
         | Inr VD \<Rightarrow> np_dot VD eigVecsTranspose)"

section \<open>Covariance matrix: \<^verbatim>\<open>makeCmatrix\<close>\<close>






text \<open>
  Lines 179 to 183: the diagonal is \<^verbatim>\<open>1.0\<close>, an entry above it the dot product of the
  two unit vectors, an entry below it is left zero.
\<close>

definition cosThetaArray :: "'a::{zero,one,plus,times} list list \<Rightarrow> 'a list list" where
  "cosThetaArray U =
     (let vecSize = ncols U
      in map (\<lambda>row. map (\<lambda>column.
                if column = row then 1
                else if row < column then np_sum (map (\<lambda>k. U ! k ! row * U ! k ! column) [0..<length U])
                else 0) [0..<vecSize]) [0..<vecSize])"




section \<open>Lemmas about extraction\<close>

lemma np_where_sorted: "sorted (np_where m)" "distinct (np_where m)"
  by (simp_all add: np_where_def sorted_wrt_filter)

lemma pixel_outside_iff: "pixel_outside ps big \<longleftrightarrow> (\<exists>p \<in> set ps. p \<notin> set big)"
  by (induction ps) auto

lemma inner_match:
  assumes "distinct mv"
  shows "concat (map (\<lambda>subI. if mv ! subI = v then [b] else []) [0..<length mv])
         = (if v \<in> set mv then [b] else [])"
  using assms
proof (induction mv rule: rev_induct)
  case Nil then show ?case by simp
next
  case (snoc x xs)
  have eq: "map (\<lambda>subI. if (xs @ [x]) ! subI = v then [b] else []) [0..<length xs]
          = map (\<lambda>subI. if xs ! subI = v then [b] else []) [0..<length xs]"
    by (rule map_cong) (auto simp: nth_append)
  from snoc show ?case by (auto simp: eq)
qed

lemma concat_if_filter: "concat (map (\<lambda>x. if P x then [x] else []) xs) = filter P xs"
  by (induction xs) simp_all

lemma subVec_filter:
  assumes "distinct mv"
  shows "subVec_of mv big = filter (\<lambda>i. big ! i \<in> set mv) [0..<length big]"
proof -
  have "subVec_of mv big = concat (map (\<lambda>bigI. if big ! bigI \<in> set mv then [bigI] else []) [0..<length big])"
    unfolding subVec_of_def by (simp only: inner_match[OF assms])
  also have "\<dots> = filter (\<lambda>i. big ! i \<in> set mv) [0..<length big]"
    by (rule concat_if_filter)
  finally show ?thesis .
qed

lemma sorted_distinct_filter_subset:
  assumes "sorted (big::nat list)" "distinct big" "sorted mv" "distinct mv" "set mv \<subseteq> set big"
  shows "filter (\<lambda>v. v \<in> set mv) big = mv"
proof (rule sorted_distinct_set_unique)
  show "sorted (filter (\<lambda>v. v \<in> set mv) big)" using assms(1) by (simp add: sorted_wrt_filter)
  show "distinct (filter (\<lambda>v. v \<in> set mv) big)" using assms(2) by simp
  show "sorted mv" "distinct mv" by fact+
  show "set (filter (\<lambda>v. v \<in> set mv) big) = set mv" using assms(5) by auto
qed

lemma map_nth_subVec:
  assumes "sorted big" "distinct big" "sorted mv" "distinct mv" "set mv \<subseteq> set big"
  shows "map ((!) big) (subVec_of mv big) = mv"
proof -
  have "map ((!) big) (subVec_of mv big) = filter (\<lambda>v. v \<in> set mv) (map ((!) big) [0..<length big])"
    by (simp add: subVec_filter[OF assms(4)] filter_map comp_def)
  also have "\<dots> = filter (\<lambda>v. v \<in> set mv) big" by (simp add: map_nth)
  finally show ?thesis using sorted_distinct_filter_subset[OF assms] by simp
qed

lemma subVec_same: "distinct big \<Longrightarrow> subVec_of big big = [0..<length big]"
  by (simp add: subVec_filter)

lemma set_np_where: "set (np_where m) = {i. i < length m \<and> m ! i}"
  by (auto simp: np_where_def)

lemma valid_pair_iff: "valid_pair m big \<longleftrightarrow> \<not> pixel_outside (np_where m) (np_where big)"
  by (auto simp: valid_pair_def pixel_outside_iff set_np_where list_all_iff)

lemma position_in_nth: "distinct big \<Longrightarrow> i < length big \<Longrightarrow> position_in big (big ! i) = i"
  unfolding position_in_def
proof (induction big arbitrary: i)
  case Nil then show ?case by simp
next
  case (Cons x xs)
  then show ?case by (cases i) auto
qed

lemma subVec_bound: "s \<in> set (subVec_of mv big) \<Longrightarrow> s < length big"
  by (auto simp: subVec_of_def)

lemma subVec_positions:
  assumes "sorted big" "distinct big" "sorted mv" "distinct mv" "set mv \<subseteq> set big"
  shows "subVec_of mv big = map (position_in big) mv"
proof -
  have "map (position_in big) mv = map (position_in big) (map ((!) big) (subVec_of mv big))"
    by (simp only: map_nth_subVec[OF assms])
  also have "\<dots> = map (\<lambda>s. s) (subVec_of mv big)"
    unfolding map_map comp_def
    by (rule map_cong) (auto simp: position_in_nth[OF assms(2)] dest: subVec_bound)
  finally show ?thesis by simp
qed

lemma subVec_masks:
  assumes "valid_pair m big"
  shows "subVec_of (np_where m) (np_where big) = map (position_in (np_where big)) (np_where m)"
  using assms
  by (intro subVec_positions np_where_sorted)
     (auto simp: valid_pair_iff pixel_outside_iff)

lemma meshgrid_index_ok:
  assumes "is_square n M" "\<forall>s \<in> set idx. s < n" "idx \<noteq> []"
  shows "meshgrid_index M idx = Inr (map (\<lambda>a. map (\<lambda>b. M ! b ! a) idx) idx)"
  using assms
  by (cases M) (auto simp: meshgrid_index_def is_square_def ncols_def list_all_iff)

lemma position_bound:
  assumes "valid_pair m big" "p \<in> set (np_where m)"
  shows "position_in (np_where big) p < length (np_where big)"
proof -
  have "position_in (np_where big) p \<in> set (subVec_of (np_where m) (np_where big))"
    using assms by (simp add: subVec_masks)
  then show ?thesis by (rule subVec_bound)
qed

lemma subMatrix2_valid:
  assumes "valid_pair m big" "is_square (length (np_where big)) M" "np_where m \<noteq> []"
  shows "subMatrix2 m big M =
     Inr (NdArray (map (\<lambda>a. map (\<lambda>b. M ! b ! a) (map (position_in (np_where big)) (np_where m)))
                      (map (position_in (np_where big)) (np_where m))))"
proof -
  have b: "\<forall>s \<in> set (map (position_in (np_where big)) (np_where m)). s < length (np_where big)"
    using position_bound[OF assms(1)] by auto
  show ?thesis
    using assms(1) meshgrid_index_ok[OF assms(2) b] assms(3)
    by (simp add: subMatrix2_def Let_def valid_pair_iff[symmetric] subVec_masks)
qed

lemma transposeM_nth:
  "j < ncols M \<Longrightarrow> i < length M \<Longrightarrow> transposeM M ! j ! i = M ! i ! j"
  by (simp add: transposeM_def)

lemma square_ncols: "is_square n M \<Longrightarrow> ncols M = n"
  by (cases M) (auto simp: is_square_def ncols_def)

lemma symmetric_nth:
  assumes "symmetric M" "is_square n M" "i < n" "j < n"
  shows "M ! i ! j = M ! j ! i"
proof -
  have "transposeM M ! j ! i = M ! i ! j"
    using assms square_ncols[OF assms(2)] by (intro transposeM_nth) (simp_all add: is_square_def)
  then show ?thesis using assms(1) by (simp add: symmetric_def)
qed

lemma select_block_all:
  assumes "is_square n M"
  shows "select_block M [0..<n] = M"
proof -
  have rows: "\<And>a. a < n \<Longrightarrow> map (\<lambda>b. M ! a ! b) [0..<n] = M ! a"
    using assms by (intro nth_equalityI) (auto simp: is_square_def list_all_length)
  have "select_block M [0..<n] = map (\<lambda>a. M ! a) [0..<n]"
    unfolding select_block_def by (rule map_cong) (auto simp: rows)
  also have "\<dots> = M" using assms map_nth[of M] by (simp add: is_square_def)
  finally show ?thesis .
qed

lemma transposed_all:
  assumes "is_square n M"
  shows "map (\<lambda>a. map (\<lambda>b. M ! b ! a) [0..<n]) [0..<n] = transposeM M"
  using assms by (simp add: transposeM_def square_ncols) (simp add: is_square_def)

lemma positions_same: "superset_positions big big = [0..<length (np_where big)]"
proof -
  have "subVec_of (np_where big) (np_where big) = superset_positions big big"
    unfolding superset_positions_def
    by (intro subVec_positions np_where_sorted) simp
  then show ?thesis by (simp add: subVec_same np_where_sorted)
qed

lemma valid_pair_refl: "valid_pair m m"
  by (simp add: valid_pair_def list_all_iff)

lemma np_where_nonempty: "np_where m \<noteq> [] \<longleftrightarrow> True \<in> set m"
proof -
  have "np_where m \<noteq> [] \<longleftrightarrow> set (np_where m) \<noteq> {}" by simp
  also have "\<dots> \<longleftrightarrow> (\<exists>i<length m. m ! i)" by (auto simp: set_np_where)
  also have "\<dots> \<longleftrightarrow> True \<in> set m" by (auto simp: in_set_conv_nth)
  finally show ?thesis .
qed

lemma subMatrix2_same:
  assumes "is_square (length (np_where m)) M" "True \<in> set m"
  shows "subMatrix2 m m M = Inr (NdArray (transposeM M))"
  using subMatrix2_valid[OF valid_pair_refl assms(1)] transposed_all[OF assms(1)] assms(2)
  by (simp add: positions_same[unfolded superset_positions_def] np_where_nonempty)

lemma positions_bound:
  assumes "valid_pair m big" "s \<in> set (superset_positions m big)"
  shows "s < length (np_where big)"
  using assms position_bound[OF assms(1)] by (auto simp: superset_positions_def)

lemma block_eq_iff:
  "map (\<lambda>a. map (\<lambda>b. f a b) idx) idx = map (\<lambda>a. map (\<lambda>b. g a b) idx) idx
     \<longleftrightarrow> (\<forall>a < length idx. \<forall>b < length idx. f (idx ! a) (idx ! b) = g (idx ! a) (idx ! b))"
proof -
  have "map (\<lambda>a. map (\<lambda>b. f a b) idx) idx = map (\<lambda>a. map (\<lambda>b. g a b) idx) idx
     \<longleftrightarrow> (\<forall>a \<in> set idx. \<forall>b \<in> set idx. f a b = g a b)"
    by simp
  also have "\<dots> \<longleftrightarrow> (\<forall>a < length idx. \<forall>b < length idx. f (idx ! a) (idx ! b) = g (idx ! a) (idx ! b))"
    by (simp add: all_set_conv_all_nth)
  finally show ?thesis .
qed

lemma subMatrix2_store_unchanged:
  assumes "d < next_id s"
  shows "objs (fst (subMatrix2_store m big c s)) d = objs s d"
  using assms
  by (auto simp: subMatrix2_store_def split: sum.splits pyval.splits)

section \<open>Lemmas about the floating-point numbers\<close>

lemma bitlen_eqI:
  assumes "2 ^ n \<le> a" "a < 2 ^ Suc n"
  shows "bitlen a = int n + 1"
proof (rule antisym)
  show "bitlen a \<le> int n + 1"
    using assms(2) by (simp add: bitlen_le_iff_power nat_add_distrib)
  show "int n + 1 \<le> bitlen a"
    using assms(1) by (simp add: bitlen_ge_iff_power nat_add_distrib)
qed

lemma bitlen_53: "2 ^ 52 \<le> a \<Longrightarrow> a < 2 ^ 53 \<Longrightarrow> bitlen a = 53"
  using bitlen_eqI[of 52 a] by simp

lemma bitlen_54: "2 ^ 53 \<le> a \<Longrightarrow> a < 2 ^ 54 \<Longrightarrow> bitlen a = 54"
  using bitlen_eqI[of 53 a] by simp

lemma bitlen_le_52: "a < 2 ^ 52 \<Longrightarrow> bitlen a \<le> 52"
  by (simp add: bitlen_le_iff_power)

lemma bitlen_le_53: "a < 2 ^ 53 \<Longrightarrow> bitlen a \<le> 53"
  by (simp add: bitlen_le_iff_power)

lemma round64_exact_normal:
  assumes "2 ^ 52 \<le> \<bar>m\<bar>" "\<bar>m\<bar> < 2 ^ 53" "- 1074 \<le> e" "e \<le> 971"
  shows "round64 m e = Finite m e"
proof -
  have b: "bitlen \<bar>m\<bar> = 53" using assms by (intro bitlen_53)
  have m0: "m \<noteq> 0" using assms(1) by auto
  have te: "max (e + bitlen \<bar>m\<bar> - 53) (- 1074) = e" using assms(3) by (simp add: b)
  show ?thesis
    unfolding round64_def Let_def te using m0 assms by simp
qed

lemma round64_exact_subnormal:
  assumes "m \<noteq> 0" "\<bar>m\<bar> < 2 ^ 52"
  shows "round64 m (- 1074) = Finite m (- 1074)"
proof -
  have "bitlen \<bar>m\<bar> \<le> 52" using assms by (intro bitlen_le_52)
  then have te: "max (- 1074 + bitlen \<bar>m\<bar> - 53) (- 1074) = - 1074" by simp
  show ?thesis
    unfolding round64_def Let_def te using assms by simp
qed

lemma round64_wf: "wf64 (Finite m e) \<Longrightarrow> round64 m e = Finite m e"
  by (auto simp: round64_exact_normal round64_exact_subnormal)

lemma rne_double: "rne (2 * m) 1 = m"
  by (simp add: rne_def Let_def)

lemma round64_double_normal:
  assumes "2 ^ 52 \<le> \<bar>m\<bar>" "\<bar>m\<bar> < 2 ^ 53" "- 1074 \<le> e" "e \<le> 970"
  shows "round64 (2 * m) e = Finite m (e + 1)"
proof -
  have "2 ^ 53 \<le> \<bar>2 * m\<bar>" "\<bar>2 * m\<bar> < 2 ^ 54" using assms by (simp_all add: abs_mult)
  then have b: "bitlen \<bar>2 * m\<bar> = 54" by (intro bitlen_54)
  have m0: "m \<noteq> 0" using assms(1) by auto
  have te: "max (e + bitlen \<bar>2 * m\<bar> - 53) (- 1074) = e + 1" using assms(3) by (simp add: b)
  have sh: "nat (e + 1 - e) = 1" by simp
  show ?thesis
    unfolding round64_def Let_def te sh rne_double using m0 assms by simp
qed

lemma round64_double_subnormal:
  assumes "m \<noteq> 0" "\<bar>m\<bar> < 2 ^ 52"
  shows "round64 (2 * m) (- 1074) = Finite (2 * m) (- 1074)"
proof -
  have "\<bar>2 * m\<bar> < 2 ^ 53" using assms by (simp add: abs_mult)
  then have "bitlen \<bar>2 * m\<bar> \<le> 53" by (intro bitlen_le_53)
  then have te: "max (- 1074 + bitlen \<bar>2 * m\<bar> - 53) (- 1074) = - 1074" by simp
  have nc: "\<bar>2 * m\<bar> \<noteq> 2 ^ 53" using \<open>\<bar>2 * m\<bar> < 2 ^ 53\<close> by simp
  show ?thesis
    unfolding round64_def Let_def te using assms nc by simp
qed

lemma double_minus_exact:
  assumes "below_half_max a"
  shows "(a + a) - a = a"
proof (cases a)
  case (Finite m e)
  then have wf: "wf64 (Finite m e)" and e: "e \<le> 970"
    using assms by (simp_all only: below_half_max.simps)
  from wf have "(2 ^ 52 \<le> \<bar>m\<bar> \<and> \<bar>m\<bar> < 2 ^ 53 \<and> - 1074 \<le> e) \<or> (m \<noteq> 0 \<and> \<bar>m\<bar> < 2 ^ 52 \<and> e = - 1074)"
    by (simp only: wf64.simps) blast
  then consider (normal) "2 ^ 52 \<le> \<bar>m\<bar>" "\<bar>m\<bar> < 2 ^ 53" "- 1074 \<le> e"
    | (subnormal) "m \<noteq> 0" "\<bar>m\<bar> < 2 ^ 52" "e = - 1074" by blast
  then show ?thesis
  proof cases
    case normal
    then have m0: "m \<noteq> 0" by auto
    have s: "a + a = Finite m (e + 1)"
      using round64_double_normal[OF normal e] m0 by (simp add: Finite Let_def)
    have "m * 2 + - m = m" by simp
    then show ?thesis
      unfolding s minus_float64_def using round64_wf[OF wf] m0
      by (simp add: Finite Let_def min_def)
  next
    case subnormal
    have s: "a + a = Finite (2 * m) (- 1074)"
      using round64_double_subnormal[OF subnormal(1,2)] subnormal by (simp add: Finite Let_def)
    show ?thesis
      unfolding s minus_float64_def using round64_wf[OF wf] subnormal
      by (simp add: Finite Let_def)
  qed
qed (use assms in \<open>simp_all add: minus_float64_def zero_float64_def\<close>)

lemma add_zero_sub_zero:
  assumes "a \<noteq> NegZero"
  shows "((a::float64) + 0) - 0 = a" "(0 + a) - 0 = a"
  using assms by (cases a; simp add: minus_float64_def zero_float64_def)+


section \<open>Lemmas about the compact form\<close>

lemma tri_Suc: "tri (Suc k) = tri k + Suc k"
proof -
  have "Suc k * (Suc k + 1) = k * (k + 1) + Suc k * 2" by simp
  then show ?thesis unfolding tri_def by (metis div_mult_self1 add.commute zero_neq_numeral)
qed

lemma length_triu_row:
  "k \<le> n \<Longrightarrow> length (concat (map (\<lambda>i. map (Pair i) [i..<n]) [0..<k])) + tri (n - k) = tri n"
proof (induction k)
  case 0 then show ?case by simp
next
  case (Suc k)
  then obtain d where d: "n - k = Suc d" by (cases "n - k") auto
  then have "n - Suc k = d" by simp
  with Suc d show ?case by (simp add: tri_Suc)
qed

lemma length_triu_indices: "length (triu_indices n n) = tri n"
  using length_triu_row[of n n] by (simp add: triu_indices_def tri_def)

lemma tri_mono: "a \<le> b \<Longrightarrow> tri a \<le> tri b"
  by (induction b) (auto simp: tri_Suc le_Suc_eq)

lemma tri_strict: "a < b \<Longrightarrow> tri a < tri b"
  using tri_mono[of "Suc a" b] by (simp add: tri_Suc)

lemma tri_ge: "k \<le> tri k"
  by (induction k) (auto simp: tri_Suc tri_def)

lemma tri_le_iff: "tri a \<le> tri b \<longleftrightarrow> a \<le> b"
  using tri_mono tri_strict by (meson not_le)

lemma tri_less_iff: "tri a < tri b \<longleftrightarrow> a < b"
  using tri_mono tri_strict by (meson not_le)

lemma filter_less_upt: "filter (\<lambda>k. k < a) [c..<b] = [c..<min a b]"
proof (induction b)
  case 0 then show ?case by simp
next
  case (Suc b)
  show ?case
  proof (cases "c \<le> b")
    case True
    consider "a \<le> b" | "a = Suc b" | "Suc b < a" by linarith
    then show ?thesis using Suc True by cases (auto simp: min_def)
  next
    case False then show ?thesis by simp
  qed
qed

lemma n_floor_tri: "n_floor (tri n) = n"
proof -
  have "[k \<leftarrow> [1..<Suc (tri n)]. tri k \<le> tri n] = [k \<leftarrow> [1..<Suc (tri n)]. k < Suc n]"
    by (rule filter_cong) (auto simp: tri_le_iff)
  also have "\<dots> = [1..<min (Suc n) (Suc (tri n))]"
    by (rule filter_less_upt)
  also have "min (Suc n) (Suc (tri n)) = Suc n"
    using tri_ge[of n] by (simp only: min_def Suc_le_mono if_True)
  finally show ?thesis by (simp add: n_floor_def)
qed

lemma n_ceil_tri: "n_ceil (tri n) = n"
proof -
  have "[k \<leftarrow> [0..<tri n]. tri k < tri n] = [k \<leftarrow> [0..<tri n]. k < n]"
    by (rule filter_cong) (auto simp: tri_less_iff)
  also have "\<dots> = [0..<min n (tri n)]"
    by (rule filter_less_upt)
  also have "min n (tri n) = n"
    using tri_ge[of n] by (simp only: min_def if_True)
  finally show ?thesis by (simp add: n_ceil_def)
qed

lemma item_cases: obtains i j v where "p = ((i :: nat, j :: nat), v)"
  by (metis surj_pair)

lemma length_set_item [simp]: "length (set_item A p) = length A"
  by (rule item_cases[of p]) simp

lemma length_row_set_item [simp]: "length (set_item A p ! i) = length (A ! i)"
proof (rule item_cases[of p])
  fix i' j' v assume "p = ((i', j'), v)"
  then show ?thesis
    by (cases "i = i'"; cases "i' < length A") (auto simp: nth_list_update list_update_beyond)
qed

lemma length_foldl_set_item [simp]: "length (foldl set_item A ps) = length A"
  by (induction ps arbitrary: A) simp_all

lemma length_row_foldl_set_item [simp]: "length (foldl set_item A ps ! i) = length (A ! i)"
  by (induction ps arbitrary: A) simp_all

lemma set_item_nth:
  "i < length A \<Longrightarrow> j < length (A ! i) \<Longrightarrow>
   set_item A ((i', j'), v) ! i ! j = (if (i, j) = (i', j') then v else A ! i ! j)"
  by (cases "i = i'") (auto simp: nth_list_update)

lemma foldl_set_item_nth:
  assumes "distinct (map fst ps)" "i < length A" "j < length (A ! i)"
  shows "foldl set_item A ps ! i ! j = (case map_of ps (i, j) of None \<Rightarrow> A ! i ! j | Some v \<Rightarrow> v)"
  using assms
proof (induction ps arbitrary: A)
  case Nil then show ?case by simp
next
  case (Cons p ps)
  obtain i' j' v where p: "p = ((i', j'), v)" by (rule item_cases)
  have ih: "foldl set_item (set_item A p) ps ! i ! j
             = (case map_of ps (i, j) of None \<Rightarrow> set_item A p ! i ! j | Some v \<Rightarrow> v)"
    using Cons.prems by (intro Cons.IH) simp_all
  have cell: "set_item A p ! i ! j = (if (i, j) = (i', j') then v else A ! i ! j)"
    unfolding p using Cons.prems(2,3) by (rule set_item_nth)
  have step: "foldl set_item A (p # ps) = foldl set_item (set_item A p) ps" by simp
  show ?case
  proof (cases "(i, j) = (i', j')")
    case True
    then have none: "map_of ps (i, j) = None"
      using Cons.prems(1) p by (simp add: map_of_eq_None_iff)
    have "map_of (p # ps) (i, j) = Some v" using True p by simp
    then show ?thesis unfolding step ih cell none using True by simp
  next
    case False
    then have "map_of (p # ps) (i, j) = map_of ps (i, j)" using p by auto
    then show ?thesis unfolding step ih cell using False by auto
  qed
qed

lemma set_triu_indices: "set (triu_indices n m) = {(i, j). i < n \<and> i \<le> j \<and> j < m}"
  by (auto simp: triu_indices_def)

lemma triu_indices_Suc: "triu_indices (Suc n) m = triu_indices n m @ map (Pair n) [n..<m]"
  by (simp add: triu_indices_def)

lemma distinct_triu_indices: "distinct (triu_indices n m)"
proof (induction n)
  case 0 then show ?case by (simp add: triu_indices_def)
next
  case (Suc n)
  have "distinct (map (Pair n) [n..<m])" by (simp add: distinct_map inj_on_def)
  moreover have "set (triu_indices n m) \<inter> set (map (Pair n) [n..<m]) = {}"
    by (auto simp: set_triu_indices)
  ultimately show ?case using Suc by (simp add: triu_indices_Suc)
qed

lemma map_of_zip_map:
  "map_of (zip xs (map f xs)) x = (if x \<in> set xs then Some (f x) else None)"
  by (induction xs) auto

lemma assign_triu:
  assumes "is_square n M"
  shows "\<exists>U. assign_indices (np_zeros n n) (triu_indices n n) (take_indices M (triu_indices n n)) = Inr U
           \<and> is_square n U
           \<and> (\<forall>i<n. \<forall>j<n. U ! i ! j = (if i \<le> j then M ! i ! j else 0))"
proof -
  let ?idx = "triu_indices n n"
  let ?ps = "zip ?idx (take_indices M ?idx)"
  let ?U = "foldl set_item (np_zeros n n) ?ps"
  have nc: "ncols (np_zeros n n :: 'a list list) = n"
    by (cases n) (simp_all add: np_zeros_def ncols_def)
  have ok: "assign_indices (np_zeros n n) ?idx (take_indices M ?idx) = Inr ?U"
    by (auto simp: assign_indices_def take_indices_def set_triu_indices nc) (simp add: np_zeros_def)
  have sq: "is_square n ?U"
    by (auto simp: is_square_def list_all_length np_zeros_def)
  have d: "distinct (map fst ?ps)"
    by (simp add: take_indices_def distinct_triu_indices)
  have ent: "?U ! i ! j = (if i \<le> j then M ! i ! j else 0)" if "i < n" "j < n" for i j
  proof -
    have "?U ! i ! j = (case map_of ?ps (i, j) of None \<Rightarrow> np_zeros n n ! i ! j | Some v \<Rightarrow> v)"
      using that by (intro foldl_set_item_nth[OF d]) (simp_all add: np_zeros_def)
    also have "map_of ?ps (i, j) = (if i \<le> j then Some (M ! i ! j) else None)"
      using that by (simp add: take_indices_def map_of_zip_map set_triu_indices)
    finally show ?thesis using that by (simp add: np_zeros_def)
  qed
  from ok sq ent show ?thesis by blast
qed

lemma symmetrise_upper:
  fixes M :: "'a::{zero,plus,minus} list list"
  assumes sqU: "is_square n U" and sqM: "is_square n M" and sym: "symmetric M"
    and ent: "\<forall>i<n. \<forall>j<n. U ! i ! j = (if i \<le> j then M ! i ! j else 0)"
    and off: "\<forall>i<n. \<forall>j<n. i \<noteq> j \<longrightarrow> (M ! i ! j + 0) - 0 = M ! i ! j \<and> (0 + M ! i ! j) - 0 = M ! i ! j"
    and dia: "\<forall>i<n. (M ! i ! i + M ! i ! i) - M ! i ! i = M ! i ! i"
  shows "symmetrise U = M"
proof -
  have ncU: "ncols U = n" and lU: "length U = n" 
    using sqU square_ncols[OF sqU] by (simp_all add: is_square_def)
  have lM: "length M = n" and rM: "\<And>i. i < n \<Longrightarrow> length (M ! i) = n"
    using sqM by (simp_all add: is_square_def list_all_length)
  have dlen: "length (np_diag_of U) = n" by (simp add: np_diag_of_def ncU lU)
  have cell: "(U ! i ! j + transposeM U ! i ! j) - np_diag (np_diag_of U) ! i ! j = M ! i ! j"
    if "i < n" "j < n" for i j
  proof -
    have t: "transposeM U ! i ! j = U ! j ! i"
      using that by (simp add: transposeM_nth ncU lU)
    have dg: "np_diag (np_diag_of U) ! i ! j = (if i = j then U ! i ! i else 0)"
      using that by (simp add: np_diag_def dlen) (simp add: np_diag_of_def ncU lU)
    consider "i < j" | "i = j" | "j < i" by linarith
    then show ?thesis
    proof cases
      case 1 then show ?thesis using that ent off t dg by simp
    next
      case 2 then show ?thesis using that ent dia t dg by simp
    next
      case 3
      have "M ! j ! i = M ! i ! j" using symmetric_nth[OF sym sqM that(2) that(1)] .
      with 3 show ?thesis using that ent off t dg by simp
    qed
  qed
  show ?thesis
  proof (rule nth_equalityI)
    show "length (symmetrise U) = length M" by (simp add: symmetrise_def Let_def lU lM)
  next
    fix i assume "i < length (symmetrise U)"
    then have i: "i < n" by (simp add: symmetrise_def Let_def lU)
    show "symmetrise U ! i = M ! i"
    proof (rule nth_equalityI)
      show "length (symmetrise U ! i) = length (M ! i)"
        using i by (simp add: symmetrise_def Let_def lU ncU rM)
    next
      fix j assume "j < length (symmetrise U ! i)"
      then have j: "j < n" using i by (simp add: symmetrise_def Let_def lU ncU)
      show "symmetrise U ! i ! j = M ! i ! j"
        using i j cell[OF i j] by (simp add: symmetrise_def Let_def lU ncU)
    qed
  qed
qed

lemma symLoad_symSave_square:
  fixes M :: "'a::{zero,plus,minus} list list"
  assumes sqM: "is_square n M" and sym: "symmetric M"
    and off: "\<forall>i<n. \<forall>j<n. i \<noteq> j \<longrightarrow> (M ! i ! j + 0) - 0 = M ! i ! j \<and> (0 + M ! i ! j) - 0 = M ! i ! j"
    and dia: "\<forall>i<n. (M ! i ! i + M ! i ! i) - M ! i ! i = M ! i ! i"
  shows "symLoad (npy_name saveFile) (symSave M saveFile fs) = Inr M"
proof -
  have lM: "length M = n" and nM: "ncols M = n"
    using sqM square_ncols[OF sqM] by (simp_all add: is_square_def)
  have len: "length (take_indices M (triu_indices n n)) = tri n"
    by (simp add: take_indices_def length_triu_indices)
  obtain U where U: "assign_indices (np_zeros n n) (triu_indices n n) (take_indices M (triu_indices n n)) = Inr U"
    "is_square n U" "\<forall>i<n. \<forall>j<n. U ! i ! j = (if i \<le> j then M ! i ! j else 0)"
    using assign_triu[OF sqM] by blast
  have "symLoad (npy_name saveFile) (symSave M saveFile fs) = Inr (symmetrise U)"
    using U(1) by (simp add: symLoad_def symSave_def Let_def lM nM len n_floor_tri n_ceil_tri)
  also have "symmetrise U = M"
    by (rule symmetrise_upper[OF U(2) sqM sym U(3) off dia])
  finally show ?thesis .
qed

lemma tri_real: "real (tri k) = real k * (real k + 1) / 2"
proof -
  have "even (k * (k + 1))" by simp
  then have "2 * tri k = k * (k + 1)" unfolding tri_def by (metis dvd_mult_div_cancel)
  then have "2 * real (tri k) = real k * (real k + 1)"
    by (metis of_nat_mult of_nat_add of_nat_1 of_nat_numeral)
  then show ?thesis by simp
qed

lemma n_formula_tri: "- 1 / 2 + sqrt (1 / 4 + 2 * real (tri k)) = real k"
proof -
  have "1 / 4 + 2 * real (tri k) = (real k + 1 / 2)\<^sup>2"
    by (simp add: tri_real power2_eq_square algebra_simps)
  then have "sqrt (1 / 4 + 2 * real (tri k)) = real k + 1 / 2"
    by (simp add: real_sqrt_unique)
  then show ?thesis by simp
qed

lemma n_formula_nat_iff:
  "- 1 / 2 + sqrt (1 / 4 + 2 * real L) \<in> \<nat> \<longleftrightarrow> (\<exists>k. L = tri k)"
proof
  assume "- 1 / 2 + sqrt (1 / 4 + 2 * real L) \<in> \<nat>"
  then obtain k :: nat where k: "- 1 / 2 + sqrt (1 / 4 + 2 * real L) = real k"
    by (auto simp: Nats_def)
  then have "sqrt (1 / 4 + 2 * real L) = real k + 1 / 2" by simp
  then have "(sqrt (1 / 4 + 2 * real L))\<^sup>2 = (real k + 1 / 2)\<^sup>2" by simp
  then have "1 / 4 + 2 * real L = (real k + 1 / 2)\<^sup>2" by simp
  then have "real L = real (tri k)"
    by (simp add: tri_real power2_eq_square algebra_simps)
  then show "\<exists>k. L = tri k" by (metis of_nat_eq_iff)
next
  assume "\<exists>k. L = tri k"
  then show "- 1 / 2 + sqrt (1 / 4 + 2 * real L) \<in> \<nat>"
    using n_formula_tri by (metis of_nat_in_Nats)
qed

lemma two_not_tri: "\<not> (\<exists>k. 2 = tri k)"
proof
  assume "\<exists>k. 2 = tri k"
  then obtain k where k: "2 = tri k" ..
  have "tri 1 = 1" "tri 2 = 3" by (simp_all add: tri_def)
  then have "tri 1 < tri k" "tri k < tri 2" using k by simp_all
  then have "1 < k" "k < 2" by (simp_all only: tri_less_iff)
  then show False by simp
qed

lemma n_floor_unique:
  assumes "tri k \<le> L" "L < tri (Suc k)"
  shows "n_floor L = k"
proof -
  have iff: "tri j \<le> L \<longleftrightarrow> j < Suc k" for j
  proof
    assume "tri j \<le> L"
    then have "tri j < tri (Suc k)" using assms(2) by simp
    then show "j < Suc k" by (simp only: tri_less_iff)
  next
    assume "j < Suc k"
    then have "tri j \<le> tri k" by (simp add: tri_mono)
    then show "tri j \<le> L" using assms(1) by simp
  qed
  have kL: "k \<le> L" using tri_ge[of k] assms(1) by simp
  have "[j \<leftarrow> [1..<Suc L]. tri j \<le> L] = [j \<leftarrow> [1..<Suc L]. j < Suc k]"
    by (simp only: iff)
  also have "\<dots> = [1..<min (Suc k) (Suc L)]" by (rule filter_less_upt)
  also have "min (Suc k) (Suc L) = Suc k" using kL by simp
  finally show ?thesis by (simp add: n_floor_def)
qed

lemma n_ceil_unique:
  assumes "L \<le> tri k" "k = 0 \<or> tri (k - 1) < L"
  shows "n_ceil L = k"
proof -
  have iff: "tri j < L \<longleftrightarrow> j < k" for j
  proof
    assume "tri j < L"
    then have "tri j < tri k" using assms(1) by simp
    then show "j < k" by (simp only: tri_less_iff)
  next
    assume jk: "j < k"
    then have "tri j \<le> tri (k - 1)" by (simp add: tri_mono)
    then show "tri j < L" using assms(2) jk by auto
  qed
  have kL: "k \<le> L"
  proof (cases k)
    case 0 then show ?thesis by simp
  next
    case (Suc d)
    then have "d \<le> tri d" "tri d < L" using tri_ge[of d] assms(2) by simp_all
    then show ?thesis using Suc by simp
  qed
  have "[j \<leftarrow> [0..<L]. tri j < L] = [j \<leftarrow> [0..<L]. j < k]"
    by (simp only: iff)
  also have "\<dots> = [0..<min k L]" by (rule filter_less_upt)
  also have "min k L = k" using kL by simp
  finally show ?thesis by (simp add: n_ceil_def)
qed

lemma le_sqrt_iff:
  assumes "0 \<le> a"
  shows "a \<le> sqrt b \<longleftrightarrow> a\<^sup>2 \<le> b"
proof -
  have "sqrt (a\<^sup>2) = a" using assms by simp
  then have "a \<le> sqrt b \<longleftrightarrow> sqrt (a\<^sup>2) \<le> sqrt b" by simp
  then show ?thesis by (simp only: real_sqrt_le_iff)
qed

lemma n_formula_le_iff:
  "real k \<le> - 1 / 2 + sqrt (1 / 4 + 2 * real L) \<longleftrightarrow> tri k \<le> L"
proof -
  have "real k \<le> - 1 / 2 + sqrt (1 / 4 + 2 * real L) \<longleftrightarrow> real k + 1 / 2 \<le> sqrt (1 / 4 + 2 * real L)"
    by auto
  also have "\<dots> \<longleftrightarrow> (real k + 1 / 2)\<^sup>2 \<le> 1 / 4 + 2 * real L"
    by (rule le_sqrt_iff) simp
  also have "\<dots> \<longleftrightarrow> real (tri k) \<le> real L"
    by (simp add: tri_real power2_eq_square algebra_simps)
  finally show ?thesis by simp
qed

lemma n_formula_nonneg: "0 \<le> - 1 / 2 + sqrt (1 / 4 + 2 * real L)"
  using n_formula_le_iff[of 0 L] by (simp add: tri_def)

lemma n_floor_formula: "int (n_floor L) = \<lfloor>- 1 / 2 + sqrt (1 / 4 + 2 * real L)\<rfloor>"
proof -
  define x where "x = - 1 / 2 + sqrt (1 / 4 + 2 * real L)"
  define k where "k = nat \<lfloor>x\<rfloor>"
  have x0: "0 \<le> x" unfolding x_def by (rule n_formula_nonneg)
  then have kx: "int k = \<lfloor>x\<rfloor>" by (simp add: k_def)
  have "real_of_int \<lfloor>x\<rfloor> \<le> x" by (rule of_int_floor_le)
  then have "real k \<le> x" by (simp add: kx[symmetric])
  then have 1: "tri k \<le> L" unfolding x_def by (simp only: n_formula_le_iff)
  have "x < real_of_int \<lfloor>x\<rfloor> + 1" by (rule real_of_int_floor_add_one_gt)
  then have "x < real (Suc k)" by (simp add: kx[symmetric])
  then have "\<not> real (Suc k) \<le> x" by simp
  then have 2: "L < tri (Suc k)" unfolding x_def by (simp only: n_formula_le_iff not_le)
  show ?thesis using n_floor_unique[OF 1 2] kx by (simp add: x_def)
qed

lemma n_ceil_formula: "int (n_ceil L) = \<lceil>- 1 / 2 + sqrt (1 / 4 + 2 * real L)\<rceil>"
proof -
  define x where "x = - 1 / 2 + sqrt (1 / 4 + 2 * real L)"
  define k where "k = nat \<lceil>x\<rceil>"
  have x0: "0 \<le> x" unfolding x_def by (rule n_formula_nonneg)
  then have kx: "int k = \<lceil>x\<rceil>" by (simp add: k_def)
  have "x \<le> real_of_int \<lceil>x\<rceil>" by (rule le_of_int_ceiling)
  then have xk: "x \<le> real k" by (simp add: kx[symmetric])
  have 1: "L \<le> tri k"
  proof (rule ccontr)
    assume "\<not> L \<le> tri k"
    then have "tri k < L" by simp
    then have "real (tri k) < real L" by simp
    moreover have "real (tri k) = real k * (real k + 1) / 2" by (rule tri_real)
    moreover have "1 / 4 + 2 * real L \<le> (real k + 1 / 2)\<^sup>2"
    proof -
      have "sqrt (1 / 4 + 2 * real L) \<le> real k + 1 / 2" using xk by (simp add: x_def)
      then have "(sqrt (1 / 4 + 2 * real L))\<^sup>2 \<le> (real k + 1 / 2)\<^sup>2"
        by (intro power_mono) simp_all
      then show ?thesis by simp
    qed
    ultimately show False by (simp add: power2_eq_square algebra_simps)
  qed
  have 2: "k = 0 \<or> tri (k - 1) < L"
  proof (cases k)
    case 0 then show ?thesis by simp
  next
    case (Suc d)
    have "real_of_int \<lceil>x\<rceil> - 1 < x" using ceiling_correct[of x] by simp
    then have "real d < x" using Suc by (simp add: kx[symmetric])
    then have "\<not> x \<le> real d" by simp
    have "\<not> L \<le> tri d"
    proof
      assume "L \<le> tri d"
      then have "real L \<le> real d * (real d + 1) / 2" using tri_real[of d] by simp
      then have "1 / 4 + 2 * real L \<le> (real d + 1 / 2)\<^sup>2"
        by (simp add: power2_eq_square algebra_simps)
      then have "sqrt (1 / 4 + 2 * real L) \<le> sqrt ((real d + 1 / 2)\<^sup>2)"
        by (simp only: real_sqrt_le_iff)
      then have "x \<le> real d" by (simp add: x_def)
      with \<open>\<not> x \<le> real d\<close> show False ..
    qed
    then show ?thesis using Suc by simp
  qed
  show ?thesis using n_ceil_unique[OF 1 2] kx by (simp add: x_def)
qed

section \<open>Lemmas about the mean correction\<close>

lemma of_size_real: "of_size n = real n"
  by (induction n) simp_all

lemma foldl_add_real: "foldl (+) (a::real) xs = a + sum_list xs"
  by (induction xs arbitrary: a) simp_all

lemma np_sum_real: "np_sum (xs::real list) = sum_list xs"
  by (cases xs) (simp_all add: foldl_add_real)

lemma sum_list_columns:
  assumes "list_all (\<lambda>r. length r = n) (A::real list list)"
  shows "sum_list (map (\<lambda>j. sum_list (map (\<lambda>row. row ! j) A)) [0..<n]) = sum_list (concat A)"
  using assms
proof (induction A)
  case Nil then show ?case by simp
next
  case (Cons r A)
  have "sum_list (map ((!) r) [0..<n]) = sum_list r"
    using Cons.prems map_nth[of r] by simp
  then show ?case using Cons by (simp add: sum_list_addf)
qed

lemma sum_list_rows: "sum_list (map sum_list A) = sum_list (concat (A::real list list))"
  by (induction A) simp_all

lemma cMatCorrect_square:
  fixes C :: "real list list"
  assumes sq: "is_square n C"
  shows "cMatCorrect C =
     Inr (map (\<lambda>i. map (\<lambda>j. C ! i ! j - sum_list (map (\<lambda>row. row ! j) C) / real n
                               - sum_list (C ! i) / real n
                               + sum_list (concat C) / (real n)\<^sup>2) [0..<n]) [0..<n])"
proof -
  have lC: "length C = n" and nC: "ncols C = n" and rows: "\<And>i. i < n \<Longrightarrow> length (C ! i) = n"
    using sq square_ncols[OF sq] by (simp_all add: is_square_def list_all_length)
  have cell: "((bc (C ! i) j - bc (np_sum_axis0 C) j / of_size n)
               - bc (map (\<lambda>i. replicate n (np_sum_axis1 C ! i)) [0..<n] ! i) j / of_size n)
              + np_sum (concat C) / of_size (n\<^sup>2)
            = C ! i ! j - sum_list (map (\<lambda>row. row ! j) C) / real n
               - sum_list (C ! i) / real n + sum_list (concat C) / (real n)\<^sup>2"
    if "i < n" "j < n" for i j
  proof (cases "n = 1")
    case True
    then have "i = 0" "j = 0" using that by simp_all
    then show ?thesis
      using True rows[of 0] lC
      by (simp add: bc_def np_sum_axis0_def np_sum_axis1_def nC np_sum_real of_size_real)
  next
    case False
    then show ?thesis
      using that rows[OF that(1)] lC
      by (simp add: bc_def np_sum_axis0_def np_sum_axis1_def nC np_sum_real of_size_real)
  qed
  have "cMatCorrect C =
     Inr (map (\<lambda>i. map (\<lambda>j. ((bc (C ! i) j - bc (np_sum_axis0 C) j / of_size n)
               - bc (map (\<lambda>i. replicate n (np_sum_axis1 C ! i)) [0..<n] ! i) j / of_size n)
              + np_sum (concat C) / of_size (n\<^sup>2)) [0..<n]) [0..<n])"
    by (simp add: cMatCorrect_def Let_def lC nC)
  also have "\<dots> = Inr (map (\<lambda>i. map (\<lambda>j. C ! i ! j - sum_list (map (\<lambda>row. row ! j) C) / real n
                               - sum_list (C ! i) / real n
                               + sum_list (concat C) / (real n)\<^sup>2) [0..<n]) [0..<n])"
    using cell by (auto intro!: map_cong)
  finally show ?thesis .
qed

lemma sum_list_div_const:
  "sum_list (map (\<lambda>x. f x / (c::real)) xs) = sum_list (map f xs) / c"
  by (induction xs) (simp_all add: add_divide_distrib)

lemma corrected_row_sum:
  fixes C :: "real list list"
  assumes sq: "is_square n C" and i: "i < n"
  shows "sum_list (map (\<lambda>j. C ! i ! j - sum_list (map (\<lambda>row. row ! j) C) / real n
                               - sum_list (C ! i) / real n
                               + sum_list (concat C) / (real n)\<^sup>2) [0..<n]) = 0"
proof -
  have rows: "list_all (\<lambda>r. length r = n) C" and li: "length (C ! i) = n"
    using sq i by (simp_all add: is_square_def list_all_length)
  have n0: "real n \<noteq> 0" using i by simp
  let ?T = "sum_list (concat C)"
  have a: "sum_list (map (\<lambda>j. C ! i ! j) [0..<n]) = sum_list (C ! i)"
    using li map_nth[of "C ! i"] by simp
  have b: "sum_list (map (\<lambda>j. sum_list (map (\<lambda>row. row ! j) C) / real n) [0..<n]) = ?T / real n"
    using sum_list_columns[OF rows] by (simp add: sum_list_div_const)
  have c: "sum_list (map (\<lambda>j. sum_list (C ! i) / real n) [0..<n]) = sum_list (C ! i)"
    using n0 by (simp add: sum_list_triv)
  have d: "sum_list (map (\<lambda>j. ?T / (real n)\<^sup>2) [0..<n]) = ?T / real n"
    using n0 by (simp add: sum_list_triv power2_eq_square)
  have "sum_list (map (\<lambda>j. C ! i ! j - sum_list (map (\<lambda>row. row ! j) C) / real n
                               - sum_list (C ! i) / real n + ?T / (real n)\<^sup>2) [0..<n])
        = sum_list (map (\<lambda>j. C ! i ! j) [0..<n])
          - sum_list (map (\<lambda>j. sum_list (map (\<lambda>row. row ! j) C) / real n) [0..<n])
          - sum_list (map (\<lambda>j. sum_list (C ! i) / real n) [0..<n])
          + sum_list (map (\<lambda>j. ?T / (real n)\<^sup>2) [0..<n])"
    by (simp add: sum_list_addf sum_list_subtractf)
  also have "\<dots> = 0" unfolding a b c d by simp
  finally show ?thesis .
qed

lemma cMatCorrect_formula:
  fixes F :: "'a::{zero,one,plus,minus,inverse} list list"
  assumes sq: "is_square n F"
  shows "cMatCorrect F =
     Inr (map (\<lambda>i. map (\<lambda>j. ((F ! i ! j - np_sum (map (\<lambda>row. row ! j) F) / of_size n)
                                 - np_sum (F ! i) / of_size n)
                                + np_sum (concat F) / of_size (n\<^sup>2)) [0..<n]) [0..<n])"
proof -
  have lF: "length F = n" and nF: "ncols F = n" and rows: "\<And>i. i < n \<Longrightarrow> length (F ! i) = n"
    using sq square_ncols[OF sq] by (simp_all add: is_square_def list_all_length)
  have cell: "((bc (F ! i) j - bc (np_sum_axis0 F) j / of_size n)
               - bc (map (\<lambda>i. replicate n (np_sum_axis1 F ! i)) [0..<n] ! i) j / of_size n)
              + np_sum (concat F) / of_size (n\<^sup>2)
            = ((F ! i ! j - np_sum (map (\<lambda>row. row ! j) F) / of_size n)
                                 - np_sum (F ! i) / of_size n)
                                + np_sum (concat F) / of_size (n\<^sup>2)"
    if "i < n" "j < n" for i j
  proof (cases "n = 1")
    case True
    then have "i = 0" "j = 0" using that by simp_all
    then show ?thesis
      using True rows[of 0] lF
      by (simp add: bc_def np_sum_axis0_def np_sum_axis1_def nF)
  next
    case False
    then show ?thesis
      using that rows[OF that(1)] lF
      by (simp add: bc_def np_sum_axis0_def np_sum_axis1_def nF)
  qed
  have "cMatCorrect F =
     Inr (map (\<lambda>i. map (\<lambda>j. ((bc (F ! i) j - bc (np_sum_axis0 F) j / of_size n)
               - bc (map (\<lambda>i. replicate n (np_sum_axis1 F ! i)) [0..<n] ! i) j / of_size n)
              + np_sum (concat F) / of_size (n\<^sup>2)) [0..<n]) [0..<n])"
    by (simp add: cMatCorrect_def Let_def lF nF)
  also have "map (\<lambda>i. map (\<lambda>j. ((bc (F ! i) j - bc (np_sum_axis0 F) j / of_size n)
               - bc (map (\<lambda>i. replicate n (np_sum_axis1 F ! i)) [0..<n] ! i) j / of_size n)
              + np_sum (concat F) / of_size (n\<^sup>2)) [0..<n]) [0..<n]
        = map (\<lambda>i. map (\<lambda>j. ((F ! i ! j - np_sum (map (\<lambda>row. row ! j) F) / of_size n)
                                 - np_sum (F ! i) / of_size n)
                                + np_sum (concat F) / of_size (n\<^sup>2)) [0..<n]) [0..<n]"
    using cell by (auto intro!: map_cong)
  finally show ?thesis .
qed

section \<open>Lemmas about the inversion\<close>

lemma ncols_nth0: "M \<noteq> [] \<Longrightarrow> ncols M = length (M ! 0)"
  by (cases M) (simp_all add: ncols_def)

lemma ncols_map_upt: "ncols (map (\<lambda>i. map (f i) [0..<c]) [0..<r]) = (if r = 0 then 0 else c)"
proof (cases "r = 0")
  case True then show ?thesis by (simp add: ncols_def)
next
  case False
  then have "map (\<lambda>i. map (f i) [0..<c]) [0..<r] \<noteq> []" by simp
  from ncols_nth0[OF this] False show ?thesis by simp
qed

lemma ncols_np_diag: "ncols (np_diag v) = length v"
  unfolding np_diag_def by (simp add: ncols_map_upt)

lemma sum_list_single_if:
  fixes a :: "nat \<Rightarrow> real"
  shows "sum_list (map (\<lambda>l. a l * (if l = k then d else 0)) [0..<n]) = (if k < n then a k * d else 0)"
  by (induction n) (auto simp: less_Suc_eq)

lemma matrix_cong:
  assumes "\<And>i j. i < r \<Longrightarrow> j < c \<Longrightarrow> f i j = g i j"
  shows "map (\<lambda>i. map (\<lambda>j. f i j) [0..<c]) [0..<r] = map (\<lambda>i. map (\<lambda>j. g i j) [0..<c]) [0..<r]"
  using assms by simp

lemma np_sum_cong:
  assumes "\<And>k. k < n \<Longrightarrow> f k = g k"
  shows "np_sum (map f [0..<n]) = np_sum (map g [0..<n])"
proof -
  have "map f [0..<n] = map g [0..<n]" using assms by simp
  then show ?thesis by (rule arg_cong)
qed

lemma matrix_nth:
  "i < r \<Longrightarrow> j < c \<Longrightarrow> map (\<lambda>i. map (\<lambda>j. f i j) [0..<c]) [0..<r] ! i ! j = f i j"
  by simp

lemma RDInvert_shape:
  fixes eigVecs :: "'a::{zero,plus,times,inverse} list list"
  assumes sq: "is_square n eigVecs" and len: "length eigVals = n"
  shows "RDInvert eigVals eigVecs =
     Inr (map (\<lambda>i. map (\<lambda>j. np_sum (map (\<lambda>k.
                 np_sum (map (\<lambda>l. eigVecs ! i ! l * np_diag (map inverse eigVals) ! l ! k) [0..<n])
                 * eigVecs ! j ! k) [0..<n])) [0..<n]) [0..<n])"
proof -
  have lV: "length eigVecs = n" and nV: "ncols eigVecs = n"
    using sq square_ncols[OF sq] by (simp_all add: is_square_def)
  define D where "D = np_diag (map inverse eigVals)"
  define VD where "VD = map (\<lambda>i. map (\<lambda>k. np_sum (map (\<lambda>l. eigVecs ! i ! l * D ! l ! k) [0..<n])) [0..<n]) [0..<n]"
  have lD: "length D = n" and nD: "ncols D = n"
    using len by (simp_all add: D_def ncols_np_diag) (simp add: np_diag_def)
  have 1: "np_dot eigVecs D = Inr VD"
    by (simp add: np_dot_def nV lD nD lV VD_def)
  have nVD: "ncols VD = n" and lVD: "length VD = n"
    by (simp_all add: VD_def ncols_map_upt)
  have lT: "length (transposeM eigVecs) = n" and nT: "ncols (transposeM eigVecs) = n"
    by (simp_all add: transposeM_def nV lV ncols_map_upt)
  have 2: "np_dot VD (transposeM eigVecs) =
      Inr (map (\<lambda>i. map (\<lambda>j. np_sum (map (\<lambda>k. VD ! i ! k * transposeM eigVecs ! k ! j) [0..<n])) [0..<n]) [0..<n])"
    by (simp add: np_dot_def nVD lVD lT nT)
  have 3: "map (\<lambda>i. map (\<lambda>j. np_sum (map (\<lambda>k. VD ! i ! k * transposeM eigVecs ! k ! j) [0..<n])) [0..<n]) [0..<n]
         = map (\<lambda>i. map (\<lambda>j. np_sum (map (\<lambda>k.
                 np_sum (map (\<lambda>l. eigVecs ! i ! l * D ! l ! k) [0..<n])
                 * eigVecs ! j ! k) [0..<n])) [0..<n]) [0..<n]"
  proof (rule matrix_cong, rule np_sum_cong)
    fix i j k assume "i < n" "j < n" "k < n"
    have "VD ! i ! k = np_sum (map (\<lambda>l. eigVecs ! i ! l * D ! l ! k) [0..<n])"
      unfolding VD_def using \<open>i < n\<close> \<open>k < n\<close> by (rule matrix_nth)
    moreover have "transposeM eigVecs ! k ! j = eigVecs ! j ! k"
      using \<open>j < n\<close> \<open>k < n\<close> by (simp add: transposeM_nth nV lV)
    ultimately show "VD ! i ! k * transposeM eigVecs ! k ! j
        = np_sum (map (\<lambda>l. eigVecs ! i ! l * D ! l ! k) [0..<n]) * eigVecs ! j ! k"
      by (simp only:)
  qed
  have "RDInvert eigVals eigVecs = np_dot VD (transposeM eigVecs)"
    unfolding RDInvert_def Let_def D_def[symmetric] 1 by simp
  then show ?thesis unfolding 2 3 D_def .
qed

lemma RDInvert_real:
  fixes eigVecs :: "real list list"
  assumes sq: "is_square n eigVecs" and len: "length eigVals = n"
  shows "RDInvert eigVals eigVecs =
     Inr (map (\<lambda>i. map (\<lambda>j. sum_list (map (\<lambda>k. eigVecs ! i ! k * inverse (eigVals ! k) * eigVecs ! j ! k)
                                   [0..<n])) [0..<n]) [0..<n])"
proof -
  have d: "np_diag (map inverse eigVals) ! l ! k = (if l = k then inverse (eigVals ! k) else 0)"
    if "l < n" "k < n" for l k
    using that len by (auto simp: np_diag_def)
  have inner: "np_sum (map (\<lambda>l. eigVecs ! i ! l * np_diag (map inverse eigVals) ! l ! k) [0..<n])
        = eigVecs ! i ! k * inverse (eigVals ! k)" if "k < n" for i k
  proof -
    have "np_sum (map (\<lambda>l. eigVecs ! i ! l * np_diag (map inverse eigVals) ! l ! k) [0..<n])
        = np_sum (map (\<lambda>l. eigVecs ! i ! l * (if l = k then inverse (eigVals ! k) else 0)) [0..<n])"
      by (rule np_sum_cong) (use that in \<open>simp only: d\<close>)
    also have "\<dots> = sum_list (map (\<lambda>l. eigVecs ! i ! l * (if l = k then inverse (eigVals ! k) else 0)) [0..<n])"
      by (rule np_sum_real)
    also have "\<dots> = eigVecs ! i ! k * inverse (eigVals ! k)"
      using that by (simp only: sum_list_single_if if_True)
    finally show ?thesis .
  qed
  have "map (\<lambda>i. map (\<lambda>j. np_sum (map (\<lambda>k.
                 np_sum (map (\<lambda>l. eigVecs ! i ! l * np_diag (map inverse eigVals) ! l ! k) [0..<n])
                 * eigVecs ! j ! k) [0..<n])) [0..<n]) [0..<n]
      = map (\<lambda>i. map (\<lambda>j. np_sum (map (\<lambda>k. eigVecs ! i ! k * inverse (eigVals ! k) * eigVecs ! j ! k)
                                   [0..<n])) [0..<n]) [0..<n]"
    by (rule matrix_cong, rule np_sum_cong) (simp only: inner)
  then show ?thesis
    unfolding RDInvert_shape[OF sq len] by (simp only: np_sum_real)
qed

section \<open>Lemmas about the covariance matrix\<close>








lemma cosThetaArray_upper:
  "i < j \<Longrightarrow> j < ncols U \<Longrightarrow>
   cosThetaArray U ! i ! j = np_sum (map (\<lambda>k. U ! k ! i * U ! k ! j) [0..<length U])"
  by (simp add: cosThetaArray_def Let_def)


section \<open>The claims\<close>

text \<open>
  Claim C1, as the code has it.  When the subset mask has an active pixel that the
  superset mask does not have, \<^verbatim>\<open>subMatrix2\<close> prints an error message and returns the
  integer \<^verbatim>\<open>0\<close>: it returns normally, raises nothing, and returns no matrix, whatever
  the matrix argument is.
\<close>

theorem subMatrix2_outside_returns_zero:
  assumes "i < length m" and "m ! i" and "\<not> (i < length big \<and> big ! i)"
  shows "subMatrix2 m big M = Inr (PyInt 0)"
proof -
  have "i \<in> set (np_where m)" "i \<notin> set (np_where big)"
    using assms by (auto simp: set_np_where)
  then have "pixel_outside (np_where m) (np_where big)"
    unfolding pixel_outside_iff by blast
  then show ?thesis by (simp add: subMatrix2_def)
qed

theorem subMatrix2_outside_returns_zero_witness:
  "(1::nat) < length [True, True] \<and> [True, True] ! 1 \<and> \<not> (1 < length [True, False] \<and> [True, False] ! 1)
   \<and> subMatrix2 [True, True] [True, False] [[1 :: int]] = Inr (PyInt 0)"
  using subMatrix2_outside_returns_zero [of 1 "[True, True]" "[True, False]" "[[1 :: int]]"]
  by simp

text \<open>
  The claim as the spec states it has the call fail with an error; the call returns.
\<close>

theorem subMatrix2_outside_counterexample:
  "subMatrix2 [False, True] [True, False] [[5 :: int]] = Inr (PyInt 0)
   \<and> \<not> isl (subMatrix2 [False, True] [True, False] [[5 :: int]])"
  by code_simp

text \<open>
  Claim C2, as the code has it.  For every symmetric \<open>N \<times> N\<close> matrix \<open>M\<close> of binary64
  numbers in which no entry off the diagonal is \<open>-0.0\<close> and every entry \<open>a\<close> on the diagonal
  is finite, not \<open>-0.0\<close>, and of magnitude below \<open>2\<^sup>1\<^sup>0\<^sup>2\<^sup>3\<close>, \<^verbatim>\<open>symLoad\<close> applied to the file
  that \<^verbatim>\<open>symSave\<close> wrote returns \<open>M\<close> exactly: every entry off the diagonal is rebuilt as
  \<open>(x + 0) - 0\<close> or \<open>(0 + x) - 0\<close>, every entry on it as \<open>(a + a) - a\<close>, and in binary64
  arithmetic these are \<open>x\<close> and \<open>a\<close> again.
\<close>

theorem symLoad_symSave_roundtrip:
  fixes M :: "float64 list list"
  assumes sq: "is_square n M" and sym: "symmetric M"
    and off: "\<forall>i<n. \<forall>j<n. i \<noteq> j \<longrightarrow> M ! i ! j \<noteq> NegZero"
    and dia: "\<forall>i<n. below_half_max (M ! i ! i)"
  shows "symLoad (npy_name saveFile) (symSave M saveFile fs) = Inr M"
proof (rule symLoad_symSave_square[OF sq sym])
  show "\<forall>i<n. \<forall>j<n. i \<noteq> j \<longrightarrow>
          (M ! i ! j + 0) - 0 = M ! i ! j \<and> (0 + M ! i ! j) - 0 = M ! i ! j"
    using off add_zero_sub_zero by blast
  show "\<forall>i<n. (M ! i ! i + M ! i ! i) - M ! i ! i = M ! i ! i"
    using dia double_minus_exact by blast
qed

theorem symLoad_symSave_roundtrip_witness:
  "is_square 2 [[fl 9007199254740991 970, fl 1 (- 2)], [fl 1 (- 2), fl 3 0]]
   \<and> symmetric [[fl 9007199254740991 970, fl 1 (- 2)], [fl 1 (- 2), fl 3 0]]
   \<and> fl 1 (- 2) \<noteq> NegZero
   \<and> below_half_max (fl 9007199254740991 970) \<and> below_half_max (fl 3 0)
   \<and> symLoad (npy_name ''symsave'')
        (symSave [[fl 9007199254740991 970, fl 1 (- 2)], [fl 1 (- 2), fl 3 0]] ''symsave'' Map.empty)
      = Inr [[fl 9007199254740991 970, fl 1 (- 2)], [fl 1 (- 2), fl 3 0]]"
proof -
  let ?M = "[[fl 9007199254740991 970, fl 1 (- 2)], [fl 1 (- 2), fl 3 0]]"
  have sq: "is_square 2 ?M" by code_simp
  have sy: "symmetric ?M" by code_simp
  have a: "fl 1 (- 2) \<noteq> NegZero" "below_half_max (fl 9007199254740991 970)" "below_half_max (fl 3 0)"
    by code_simp+
  have off: "\<forall>i<2. \<forall>j<2. i \<noteq> j \<longrightarrow> ?M ! i ! j \<noteq> NegZero"
    using a by (simp add: numeral_2_eq_2 All_less_Suc)
  have dia: "\<forall>i<2. below_half_max (?M ! i ! i)"
    using a by (simp add: numeral_2_eq_2 All_less_Suc)
  from symLoad_symSave_roundtrip [OF sq sy off dia] sq sy a show ?thesis by blast
qed

text \<open>
  The claim as the spec states it, for every symmetric matrix, fails on the \<open>1 \<times> 1\<close>
  matrix with the entry \<open>2\<^sup>1\<^sup>0\<^sup>2\<^sup>3\<close>: the sum \<open>a + a\<close> overflows, and the matrix returned holds
  infinity.  An infinite entry on the diagonal comes back as NaN, and \<open>-0.0\<close> comes back
  as \<open>+0.0\<close> wherever it stands.
\<close>

theorem symLoad_symSave_counterexample:
  "is_square 1 [[fl 1 1023]] \<and> symmetric [[fl 1 1023]]
   \<and> symLoad (npy_name ''symsave'') (symSave [[fl 1 1023]] ''symsave'' Map.empty) = Inr [[PInf]]
   \<and> symLoad (npy_name ''symsave'') (symSave [[fl 1 1023]] ''symsave'' Map.empty) \<noteq> Inr [[fl 1 1023]]
   \<and> symLoad (npy_name ''symsave'') (symSave [[PInf]] ''symsave'' Map.empty) = Inr [[NaN]]
   \<and> symLoad (npy_name ''symsave'') (symSave [[NegZero]] ''symsave'' Map.empty) = Inr [[PosZero]]
   \<and> symLoad (npy_name ''symsave'') (symSave [[1, NegZero], [NegZero, 1]] ''symsave'' Map.empty)
        = Inr [[1, PosZero], [PosZero, 1]]"
  by code_simp

text \<open>
  Claim C3.  For every compact form whose length \<open>L\<close> is such that
  \<open>N = -1/2 + \<surd>(1/4 + 2 L)\<close> is not a natural number, \<^verbatim>\<open>symLoad\<close> fails: the indexed
  assignment raises (the number of values is not the number of places of any upper
  triangle), and no matrix is returned.
\<close>

theorem symLoad_malformed_length:
  assumes "fs loadFile = Some loaded"
    and "- 1 / 2 + sqrt (1 / 4 + 2 * real (length loaded)) \<notin> \<nat>"
  shows "symLoad loadFile fs = Inl ValueError"
proof -
  have nt: "\<And>k. length loaded \<noteq> tri k"
    using assms(2) n_formula_nat_iff by blast
  have "length loaded \<noteq> length (triu_indices (n_ceil (length loaded)) (n_ceil (length loaded)))"
    using nt by (simp add: length_triu_indices)
  moreover have "length loaded \<noteq> 1" using nt[of 1] by (simp add: tri_def)
  ultimately show ?thesis
    using assms(1) by (simp add: symLoad_def Let_def assign_indices_def)
qed

theorem symLoad_malformed_length_witness:
  "[''symsave.npy'' \<mapsto> [1, 2 :: int]] ''symsave.npy'' = Some [1, 2]
   \<and> - 1 / 2 + sqrt (1 / 4 + 2 * real (length [1, 2 :: int])) \<notin> \<nat>
   \<and> symLoad ''symsave.npy'' [''symsave.npy'' \<mapsto> [1, 2 :: int]] = Inl ValueError"
proof -
  have f: "[''symsave.npy'' \<mapsto> [1, 2 :: int]] ''symsave.npy'' = Some [1, 2]" by simp
  have n: "- 1 / 2 + sqrt (1 / 4 + 2 * real (length [1, 2 :: int])) \<notin> \<nat>"
    using two_not_tri n_formula_nat_iff[of 2] by simp
  from symLoad_malformed_length [of "[''symsave.npy'' \<mapsto> [1, 2 :: int]]" "''symsave.npy''" "[1, 2]", OF f n] f n
  show ?thesis by blast
qed

text \<open>
  Claim C4, as the code has it.  \<^verbatim>\<open>RDInvert\<close> does not look at the eigenvalues.  For
  every array of \<open>n\<close> binary64 eigenvalues, with or without a zero, and every \<open>n \<times> n\<close> array
  of eigenvectors it returns the \<open>n \<times> n\<close> matrix \<open>V \<sqdot> \<Lambda>\<^sup>-\<^sup>1 \<sqdot> V\<^sup>t\<close>, the reciprocals taken entry by
  entry and the two products computed by \<^verbatim>\<open>np.dot\<close>; the reciprocal of a zero is an
  infinity.  In exact arithmetic with every eigenvalue non-zero, entry \<open>(i, j)\<close> of the
  result is \<open>\<Sum>\<^sub>c V\<^sub>i\<^sub>c \<sqdot> (1 / \<lambda>\<^sub>c) \<sqdot> V\<^sub>j\<^sub>c\<close>.
\<close>

theorem RDInvert_no_singular_check:
  fixes eigVecs :: "float64 list list" and V :: "real list list"
  assumes sq: "is_square n eigVecs" and len: "length eigVals = n"
    and sqV: "is_square k V" and lenV: "length lam = k" and nz: "\<forall>l<k. lam ! l \<noteq> 0"
  shows "(\<exists>cInv. RDInvert eigVals eigVecs = Inr cInv \<and> is_square n cInv
           \<and> (\<forall>i<n. \<forall>j<n. cInv ! i ! j
                 = np_sum (map (\<lambda>c. np_sum (map (\<lambda>l. eigVecs ! i ! l
                                                   * np_diag (map inverse eigVals) ! l ! c) [0..<n])
                                       * eigVecs ! j ! c) [0..<n])))
       \<and> (\<exists>cInv. RDInvert lam V = Inr cInv \<and> is_square k cInv
           \<and> (\<forall>i<k. \<forall>j<k. cInv ! i ! j
                 = (\<Sum>c\<leftarrow>[0..<k]. V ! i ! c * (1 / lam ! c) * V ! j ! c)))"
proof -
  let ?A = "map (\<lambda>i. map (\<lambda>j. np_sum (map (\<lambda>c.
                 np_sum (map (\<lambda>l. eigVecs ! i ! l * np_diag (map inverse eigVals) ! l ! c) [0..<n])
                 * eigVecs ! j ! c) [0..<n])) [0..<n]) [0..<n]"
  have 1: "RDInvert eigVals eigVecs = Inr ?A" by (rule RDInvert_shape[OF sq len])
  have 2: "is_square n ?A" by (simp add: is_square_def list_all_length)
  have 3: "\<forall>i<n. \<forall>j<n. ?A ! i ! j
                 = np_sum (map (\<lambda>c. np_sum (map (\<lambda>l. eigVecs ! i ! l
                                                   * np_diag (map inverse eigVals) ! l ! c) [0..<n])
                                       * eigVecs ! j ! c) [0..<n])"
    by simp
  let ?B = "map (\<lambda>i. map (\<lambda>j. sum_list (map (\<lambda>c. V ! i ! c * inverse (lam ! c) * V ! j ! c)
                                   [0..<k])) [0..<k]) [0..<k]"
  have 4: "RDInvert lam V = Inr ?B" by (rule RDInvert_real[OF sqV lenV])
  have 5: "is_square k ?B" by (simp add: is_square_def list_all_length)
  have 6: "\<forall>i<k. \<forall>j<k. ?B ! i ! j = (\<Sum>c\<leftarrow>[0..<k]. V ! i ! c * (1 / lam ! c) * V ! j ! c)"
    by (simp add: inverse_eq_divide)
  from 1 2 3 have A: "\<exists>cInv. RDInvert eigVals eigVecs = Inr cInv \<and> is_square n cInv
           \<and> (\<forall>i<n. \<forall>j<n. cInv ! i ! j
                 = np_sum (map (\<lambda>c. np_sum (map (\<lambda>l. eigVecs ! i ! l
                                                   * np_diag (map inverse eigVals) ! l ! c) [0..<n])
                                       * eigVecs ! j ! c) [0..<n]))" by blast
  from 4 5 6 have B: "\<exists>cInv. RDInvert lam V = Inr cInv \<and> is_square k cInv
           \<and> (\<forall>i<k. \<forall>j<k. cInv ! i ! j
                 = (\<Sum>c\<leftarrow>[0..<k]. V ! i ! c * (1 / lam ! c) * V ! j ! c))" by blast
  from A B show ?thesis by blast
qed

theorem RDInvert_no_singular_check_witness:
  "is_square 2 [[fl 1 0, 0], [0, fl 1 0]] \<and> length [fl 2 0, 0 :: float64] = 2
   \<and> is_square 2 [[0, 1], [1, 0 :: real]] \<and> length [2, 4 :: real] = 2
   \<and> [2, 4 :: real] ! 0 \<noteq> 0 \<and> [2, 4 :: real] ! 1 \<noteq> 0
   \<and> RDInvert [fl 2 0, 0] [[fl 1 0, 0], [0, fl 1 0]] = Inr [[NaN, NaN], [NaN, PInf]]
   \<and> RDInvert [2, 4 :: real] [[0, 1], [1, 0]] = Inr [[1 / 4, 0], [0, 1 / 2]]"
proof -
  have sq: "is_square 2 [[fl 1 0, 0], [0, fl 1 0]]" by (simp add: is_square_def)
  have len: "length [fl 2 0, 0 :: float64] = 2" by simp
  have sqV: "is_square 2 [[0, 1], [1, 0 :: real]]" by (simp add: is_square_def)
  have lenV: "length [2, 4 :: real] = 2" by simp
  have nz: "\<forall>l<2. [2, 4 :: real] ! l \<noteq> 0" by (simp add: numeral_2_eq_2 All_less_Suc)
  from RDInvert_no_singular_check [OF sq len sqV lenV nz] obtain cInv where
    c: "RDInvert [2, 4 :: real] [[0, 1], [1, 0]] = Inr cInv" "is_square 2 cInv"
      "\<forall>i<2. \<forall>j<2. cInv ! i ! j
          = (\<Sum>c\<leftarrow>[0..<2]. [[0, 1], [1, 0 :: real]] ! i ! c * (1 / [2, 4] ! c) * [[0, 1], [1, 0]] ! j ! c)"
    by blast
  have up: "[0..<2] = [0, Suc 0]" by (simp add: numeral_2_eq_2)
  have e: "cInv ! 0 ! 0 = 1 / 4" "cInv ! 0 ! 1 = 0" "cInv ! 1 ! 0 = 0" "cInv ! 1 ! 1 = 1 / 2"
    using c(3) by (simp_all add: up)
  have "length cInv = 2" "length (cInv ! 0) = 2" "length (cInv ! 1) = 2"
    using c(2) by (simp_all add: is_square_def list_all_length)
  then have "cInv = [[1 / 4, 0], [0, 1 / 2]]"
    using e by (auto simp: length_Suc_conv numeral_2_eq_2)
  moreover have "RDInvert [fl 2 0, 0] [[fl 1 0, 0], [0, fl 1 0]] = Inr [[NaN, NaN], [NaN, PInf]]"
    by code_simp
  ultimately show ?thesis using c(1) sq len sqV lenV by simp
qed

text \<open>
  The claim as the spec states it has the call fail on a zero eigenvalue; for the
  eigenvalue \<open>0.0\<close> and the eigenvector \<open>[[1.0]]\<close> the call returns the matrix
  \<open>[[inf]]\<close>.
\<close>

theorem RDInvert_singular_counterexample:
  "RDInvert [0 :: float64] [[fl 1 0]] = Inr [[PInf]]
   \<and> \<not> isl (RDInvert [0 :: float64] [[fl 1 0]])"
  by code_simp

text \<open>
  Claim C5, as the code has it.  For every mask \<open>m\<close> with at least one active pixel and
  every matrix \<open>M\<close> built for \<open>m\<close> (symmetric, one row and one column for each active
  pixel), extracting with the subset equal to the superset returns \<open>M\<close>.  The call
  returns a new array equal to \<open>M\<close> and leaves the array it was given as it was; more
  generally, whatever the masks and the matrix, no array that was in the store before a
  call of \<^verbatim>\<open>subMatrix2\<close> differs after it.
\<close>

theorem subMatrix2_identity_symmetric:
  fixes M :: "'a list list"
  assumes sq: "is_square (length (np_where m)) M" and sym: "symmetric M" and ne: "True \<in> set m"
  shows "subMatrix2 m m M = Inr (NdArray M)
       \<and> (\<forall>s c. c < next_id s \<and> objs s c = M \<longrightarrow>
             snd (subMatrix2_store m m c s) = Inr (RetRef (next_id s))
             \<and> objs (fst (subMatrix2_store m m c s)) (next_id s) = M
             \<and> objs (fst (subMatrix2_store m m c s)) c = M)
       \<and> (\<forall>s c d m' big'. d < next_id s \<longrightarrow>
             objs (fst (subMatrix2_store m' big' c (s :: 'a store))) d = objs s d)"
proof -
  have r: "subMatrix2 m m M = Inr (NdArray M)"
    using subMatrix2_same[OF sq ne] sym by (simp add: symmetric_def)
  have st: "snd (subMatrix2_store m m c s) = Inr (RetRef (next_id s))
             \<and> objs (fst (subMatrix2_store m m c s)) (next_id s) = M
             \<and> objs (fst (subMatrix2_store m m c s)) c = M"
    if "c < next_id s" "objs s c = M" for s :: "'a store" and c
    using that r by (simp add: subMatrix2_store_def)
  show ?thesis using r st subMatrix2_store_unchanged by blast
qed

theorem subMatrix2_identity_symmetric_witness:
  "is_square (length (np_where [True, False, True])) [[1, 2], [2, 4 :: int]]
   \<and> symmetric [[1, 2], [2, 4 :: int]]
   \<and> True \<in> set [True, False, True]
   \<and> subMatrix2 [True, False, True] [True, False, True] [[1, 2], [2, 4 :: int]]
       = Inr (NdArray [[1, 2], [2, 4]])"
proof -
  have sq: "is_square (length (np_where [True, False, True])) [[1, 2], [2, 4 :: int]]"
    by code_simp
  have s: "symmetric [[1, 2], [2, 4 :: int]]"
    by code_simp
  have ne: "True \<in> set [True, False, True]" by simp
  from subMatrix2_identity_symmetric [OF sq s ne] s sq ne show ?thesis by blast
qed

text \<open>
  The claim as the spec states it, for every mask, fails on a mask with no active
  pixel: the list of positions is empty and the indexing raises \<^verbatim>\<open>IndexError\<close>.
\<close>

theorem subMatrix2_identity_counterexample:
  "is_square (length (np_where [False, False])) ([] :: int list list)
   \<and> symmetric ([] :: int list list)
   \<and> subMatrix2 [False, False] [False, False] ([] :: int list list) = Inl IndexError"
  by code_simp

text \<open>
  Claim C6, as the code has it.  For every square \<open>N \<times> N\<close> matrix \<open>C\<close>, \<^verbatim>\<open>cMatCorrect\<close>
  returns the \<open>N \<times> N\<close> matrix \<open>C'\<^sub>i\<^sub>j = C\<^sub>i\<^sub>j - c\<^sub>j/N - r\<^sub>i/N + T/N\<^sup>2\<close> (\<open>r\<^sub>i\<close> the row sums, \<open>c\<^sub>j\<close> the
  column sums, \<open>T\<close> the total).  In exact arithmetic every row of \<open>C'\<close> sums to zero.  In
  binary64 arithmetic the entries are \<open>((C\<^sub>i\<^sub>j - c\<^sub>j/N) - r\<^sub>i/N) + T/N\<^sup>2\<close> with every operation
  rounded, and nothing is claimed of the row sums.
\<close>

theorem cMatCorrect_exact:
  fixes C :: "real list list" and F :: "float64 list list"
  assumes sq: "is_square n C" and sqF: "is_square k F"
  shows "(\<exists>C'. cMatCorrect C = Inr C' \<and> is_square n C'
           \<and> (\<forall>i<n. \<forall>j<n. C' ! i ! j
                  = C ! i ! j - sum_list (C ! i) / real n
                      - sum_list (map (\<lambda>row. row ! j) C) / real n
                      + sum_list (concat C) / (real n)\<^sup>2)
           \<and> (\<forall>i<n. sum_list (C' ! i) = 0))
       \<and> (\<exists>F'. cMatCorrect F = Inr F' \<and> is_square k F'
           \<and> (\<forall>i<k. \<forall>j<k. F' ! i ! j
                  = ((F ! i ! j - np_sum (map (\<lambda>row. row ! j) F) / of_size k)
                       - np_sum (F ! i) / of_size k)
                      + np_sum (concat F) / of_size (k\<^sup>2)))"
proof -
  let ?C' = "map (\<lambda>i. map (\<lambda>j. C ! i ! j - sum_list (map (\<lambda>row. row ! j) C) / real n
                               - sum_list (C ! i) / real n
                               + sum_list (concat C) / (real n)\<^sup>2) [0..<n]) [0..<n]"
  have 1: "cMatCorrect C = Inr ?C'" by (rule cMatCorrect_square[OF sq])
  have 2: "is_square n ?C'" by (simp add: is_square_def list_all_length)
  have 3: "\<forall>i<n. \<forall>j<n. ?C' ! i ! j
                  = C ! i ! j - sum_list (C ! i) / real n
                      - sum_list (map (\<lambda>row. row ! j) C) / real n
                      + sum_list (concat C) / (real n)\<^sup>2"
    by simp
  have 4: "\<forall>i<n. sum_list (?C' ! i) = 0"
    using corrected_row_sum[OF sq] by simp
  let ?F' = "map (\<lambda>i. map (\<lambda>j. ((F ! i ! j - np_sum (map (\<lambda>row. row ! j) F) / of_size k)
                                 - np_sum (F ! i) / of_size k)
                                + np_sum (concat F) / of_size (k\<^sup>2)) [0..<k]) [0..<k]"
  have 5: "cMatCorrect F = Inr ?F'" by (rule cMatCorrect_formula[OF sqF])
  have 6: "is_square k ?F'" by (simp add: is_square_def list_all_length)
  have 7: "\<forall>i<k. \<forall>j<k. ?F' ! i ! j
                  = ((F ! i ! j - np_sum (map (\<lambda>row. row ! j) F) / of_size k)
                       - np_sum (F ! i) / of_size k)
                      + np_sum (concat F) / of_size (k\<^sup>2)"
    by simp
  from 1 2 3 4 have A: "\<exists>C'. cMatCorrect C = Inr C' \<and> is_square n C'
           \<and> (\<forall>i<n. \<forall>j<n. C' ! i ! j
                  = C ! i ! j - sum_list (C ! i) / real n
                      - sum_list (map (\<lambda>row. row ! j) C) / real n
                      + sum_list (concat C) / (real n)\<^sup>2)
           \<and> (\<forall>i<n. sum_list (C' ! i) = 0)" by blast
  from 5 6 7 have B: "\<exists>F'. cMatCorrect F = Inr F' \<and> is_square k F'
           \<and> (\<forall>i<k. \<forall>j<k. F' ! i ! j
                  = ((F ! i ! j - np_sum (map (\<lambda>row. row ! j) F) / of_size k)
                       - np_sum (F ! i) / of_size k)
                      + np_sum (concat F) / of_size (k\<^sup>2))" by blast
  from A B show ?thesis by blast
qed

theorem cMatCorrect_exact_witness:
  "is_square 2 [[2, 1], [1, 3 :: real]]
   \<and> is_square 2 [[fl 2 0, fl 1 0], [fl 1 0, fl 3 0]]
   \<and> cMatCorrect [[2, 1], [1, 3 :: real]] = Inr [[3 / 4, - 3 / 4], [- 3 / 4, 3 / 4]]
   \<and> sum_list [3 / 4, - 3 / 4 :: real] = 0
   \<and> cMatCorrect [[fl 2 0, fl 1 0], [fl 1 0, fl 3 0]]
        = Inr [[fl 3 (- 2), fl (- 3) (- 2)], [fl (- 3) (- 2), fl 3 (- 2)]]"
proof -
  have sq: "is_square 2 [[2, 1], [1, 3 :: real]]" by (simp add: is_square_def)
  have sqF: "is_square 2 [[fl 2 0, fl 1 0], [fl 1 0, fl 3 0]]" by (simp add: is_square_def)
  from cMatCorrect_exact [OF sq sqF] obtain C' where
    C': "cMatCorrect [[2, 1], [1, 3 :: real]] = Inr C'" "is_square 2 C'"
    "\<forall>i<2. \<forall>j<2. C' ! i ! j = [[2, 1], [1, 3 :: real]] ! i ! j - sum_list ([[2, 1], [1, 3]] ! i) / real 2
        - sum_list (map (\<lambda>row. row ! j) [[2, 1], [1, 3]]) / real 2
        + sum_list (concat [[2, 1], [1, 3]]) / (real 2)\<^sup>2"
    by blast
  have e: "C' ! 0 ! 0 = 3 / 4" "C' ! 0 ! 1 = - 3 / 4" "C' ! 1 ! 0 = - 3 / 4" "C' ! 1 ! 1 = 3 / 4"
    using C'(3) by (simp_all add: power2_eq_square)
  have "length C' = 2" "length (C' ! 0) = 2" "length (C' ! 1) = 2"
    using C'(2) by (simp_all add: is_square_def list_all_length)
  then have "C' = [[3 / 4, - 3 / 4], [- 3 / 4, 3 / 4]]"
    using e by (auto simp: length_Suc_conv numeral_2_eq_2)
  moreover have "cMatCorrect [[fl 2 0, fl 1 0], [fl 1 0, fl 3 0]]
        = Inr [[fl 3 (- 2), fl (- 3) (- 2)], [fl (- 3) (- 2), fl 3 (- 2)]]"
    by code_simp
  ultimately show ?thesis using C'(1) sq sqF by simp
qed

text \<open>
  The claim as the spec states it bounds every row sum of the result by \<open>10\<^sup>-\<^sup>1\<^sup>0\<close>.  For
  the symmetric matrix with the rows \<open>(1, 1)\<close> and \<open>(1, 2\<^sup>5\<^sup>3)\<close> the rows of the result sum to
  \<open>1\<close> and to \<open>2\<close>.
\<close>

theorem cMatCorrect_row_sum_counterexample:
  "is_square 2 [[fl 1 0, fl 1 0], [fl 1 0, fl 1 53]] \<and> symmetric [[fl 1 0, fl 1 0], [fl 1 0, fl 1 53]]
   \<and> cMatCorrect [[fl 1 0, fl 1 0], [fl 1 0, fl 1 53]]
       = Inr [[fl 1 51, fl (- 2251799813685247) 0], [fl (- 2251799813685247) 0, fl 2251799813685249 0]]
   \<and> np_sum [fl 1 51, fl (- 2251799813685247) 0] = fl 1 0
   \<and> np_sum [fl (- 2251799813685247) 0, fl 2251799813685249 0] = fl 2 0"
  by code_simp



text \<open>
  Claim C10, as the code has it.  For a matrix \<open>M\<close> built for the superset mask and every
  valid subset mask with at least one active pixel, \<^verbatim>\<open>subMatrix2\<close> returns the transpose
  of the selected block: entry \<open>(a, b)\<close> of the output is \<open>M[idx\<^sub>b][idx\<^sub>a]\<close>, where \<open>idx\<close> lists
  the superset positions of the subset's pixels.  The output is the intended selection
  of rows and columns \<open>idx\<close> exactly when the selected block is symmetric, that is when
  \<open>M[idx\<^sub>a][idx\<^sub>b] = M[idx\<^sub>b][idx\<^sub>a]\<close> for all \<open>a\<close> and \<open>b\<close>; it is so whenever \<open>M\<close> is symmetric.
\<close>

theorem subMatrix2_transposed_block:
  assumes sq: "is_square (length (np_where big)) M"
    and v: "valid_pair m big" and ne: "True \<in> set m"
  shows "\<exists>out. subMatrix2 m big M = Inr (NdArray out)
           \<and> length out = length (superset_positions m big)
           \<and> (\<forall>a < length (superset_positions m big).
                 length (out ! a) = length (superset_positions m big)
                 \<and> (\<forall>b < length (superset_positions m big).
                       out ! a ! b = M ! (superset_positions m big ! b) ! (superset_positions m big ! a)))
           \<and> (out = select_block M (superset_positions m big)
                 \<longleftrightarrow> (\<forall>a < length (superset_positions m big). \<forall>b < length (superset_positions m big).
                        M ! (superset_positions m big ! a) ! (superset_positions m big ! b)
                          = M ! (superset_positions m big ! b) ! (superset_positions m big ! a)))
           \<and> (symmetric M \<longrightarrow> out = select_block M (superset_positions m big))"
proof -
  let ?idx = "superset_positions m big"
  let ?out = "map (\<lambda>a. map (\<lambda>b. M ! b ! a) ?idx) ?idx"
  have r: "subMatrix2 m big M = Inr (NdArray ?out)"
    using subMatrix2_valid[OF v sq] ne by (simp add: superset_positions_def np_where_nonempty)
  have iff: "?out = select_block M ?idx
                 \<longleftrightarrow> (\<forall>a < length ?idx. \<forall>b < length ?idx. M ! (?idx ! a) ! (?idx ! b) = M ! (?idx ! b) ! (?idx ! a))"
    unfolding select_block_def block_eq_iff by auto
  have sym: "?out = select_block M ?idx" if s: "symmetric M"
  proof -
    have "M ! (?idx ! a) ! (?idx ! b) = M ! (?idx ! b) ! (?idx ! a)"
      if "a < length ?idx" "b < length ?idx" for a b
      using that by (intro symmetric_nth[OF s sq] positions_bound[OF v]) simp_all
    then show ?thesis using iff by blast
  qed
  have ent: "\<forall>a < length ?idx. length (?out ! a) = length ?idx
                 \<and> (\<forall>b < length ?idx. ?out ! a ! b = M ! (?idx ! b) ! (?idx ! a))"
    by simp
  have len: "length ?out = length ?idx" by simp
  from r len ent iff sym show ?thesis by blast
qed

theorem subMatrix2_transposed_block_witness:
  "is_square (length (np_where [True, True, True])) [[1, 2, 3], [4, 5, 6], [7, 8, 9 :: int]]
   \<and> valid_pair [True, False, True] [True, True, True]
   \<and> True \<in> set [True, False, True]
   \<and> superset_positions [True, False, True] [True, True, True] = [0, 2]
   \<and> subMatrix2 [True, False, True] [True, True, True] [[1, 2, 3], [4, 5, 6], [7, 8, 9 :: int]]
       = Inr (NdArray [[1, 7], [3, 9]])
   \<and> select_block [[1, 2, 3], [4, 5, 6], [7, 8, 9 :: int]] [0, 2] = [[1, 3], [7, 9]]
   \<and> [[1, 2, 3], [4, 5, 6], [7, 8, 9 :: int]] ! 0 ! 2 \<noteq> [[1, 2, 3], [4, 5, 6], [7, 8, 9 :: int]] ! 2 ! 0"
proof -
  let ?M = "[[1, 2, 3], [4, 5, 6], [7, 8, 9 :: int]]"
  have sq: "is_square (length (np_where [True, True, True])) ?M" by code_simp
  have v: "valid_pair [True, False, True] [True, True, True]" by code_simp
  have ne: "True \<in> set [True, False, True]" by simp
  have idx: "superset_positions [True, False, True] [True, True, True] = [0, 2]" by code_simp
  have sel: "select_block ?M [0, 2] = [[1, 3], [7, 9]]" by code_simp
  from subMatrix2_transposed_block [OF sq v ne] obtain out where
    r: "subMatrix2 [True, False, True] [True, True, True] ?M = Inr (NdArray out)"
    and len: "length out = 2"
    and ent: "\<forall>a<2. length (out ! a) = 2 \<and> (\<forall>b<2. out ! a ! b = ?M ! ([0, 2] ! b) ! ([0, 2] ! a))"
    unfolding idx by auto
  have e: "out ! 0 ! 0 = 1" "out ! 0 ! 1 = 7" "out ! 1 ! 0 = 3" "out ! 1 ! 1 = 9"
    using ent by simp_all
  have l: "length (out ! 0) = 2" "length (out ! 1) = 2" using ent by simp_all
  have "out = [[1, 7], [3, 9]]"
    using len l e by (auto simp: length_Suc_conv numeral_2_eq_2)
  with r sq v ne idx sel show ?thesis by simp
qed

text \<open>
  The claim as stated, with the output the intended selection exactly when \<open>M\<close> is
  symmetric, fails for a matrix that is not symmetric and a subset of one pixel: the
  output is the selected block.  For a subset with no active pixel the call raises
  \<^verbatim>\<open>IndexError\<close>.
\<close>

theorem subMatrix2_transposed_block_counterexample:
  "\<not> symmetric [[1, 2], [3, 4 :: int]]
   \<and> is_square (length (np_where [True, True])) [[1, 2], [3, 4 :: int]]
   \<and> valid_pair [True, False] [True, True]
   \<and> subMatrix2 [True, False] [True, True] [[1, 2], [3, 4 :: int]] = Inr (NdArray [[1]])
   \<and> select_block [[1, 2], [3, 4 :: int]] (superset_positions [True, False] [True, True]) = [[1]]
   \<and> valid_pair [False, False] [True, True]
   \<and> subMatrix2 [False, False] [True, True] [[1, 2], [3, 4 :: int]] = Inl IndexError"
  by code_simp

end
